theory Spec2Isabelle
  imports Complex_Main "HOL-Library.Word"
begin

section \<open>Register-saturation scheduling preparation (ir/be/beschedrss.c)\<close>

text \<open>
  A shallow embedding of the analysis pipeline of \<^verbatim>\<open>beschedrss.c\<close>: potential killers,
  connected bipartite components, the greedy killing function, the disjoint value DAG,
  the antichain computation and the serialization heuristic.

  An \<^verbatim>\<open>ir_node *\<close> is identified with the node's index (\<^verbatim>\<open>get_irn_idx\<close>), which is
  what \<^verbatim>\<open>cmp_irn_idx\<close> sorts and searches by; a pointer that may be \<^verbatim>\<open>NULL\<close> is an
  option. The global \<^verbatim>\<open>_sink\<close> is passed as the parameter \<open>sink\<close>.
  A failing \<^verbatim>\<open>assert\<close>, an access through \<^verbatim>\<open>NULL\<close>, a read past the end of an array
  and the use of a variable never assigned are error values.
\<close>

subsection \<open>Data model\<close>

type_synonym node = nat

datatype error = AssertFail | NullDeref | OutOfBounds | Uninitialised

text \<open>\<^verbatim>\<open>rss_edge_t\<close>: source and target (the \<^verbatim>\<open>next\<close> link is only used to delete edges).\<close>

type_synonym rss_edge = "node \<times> node"

text \<open>\<^verbatim>\<open>rss_irn_t\<close>. A \<^verbatim>\<open>plist_t\<close> is a list; a sorted array is an optional list
  (\<^verbatim>\<open>NULL\<close> until it is built); \<^verbatim>\<open>chain\<close> points to a \<^verbatim>\<open>chain_t\<close>, here its
  position among the chains allocated so far.\<close>

record rss_irn =
  consumer_list :: "node list"
  consumer :: "node list option"
  parent_list :: "node list"
  parents_arr :: "node list option"
  descendant_list :: "node list"
  descendants :: "node list option"
  pkiller_list :: "node list"
  pkillers :: "node list option"
  dvg_desc_list :: "node list"
  dvg_desc :: "node list option"
  dvg_pkiller_list :: "node list"
  dvg_pkiller :: "node list option"
  kill_value_list :: "node list"
  dvg_user_list :: "node list"
  killer :: "node option"
  chain_ptr :: "nat option"
  live_out :: bool
  visited :: bool
  handled :: bool

text \<open>\<^verbatim>\<open>init_rss_irn\<close>: what \<^verbatim>\<open>get_rss_irn\<close> returns for a node never seen before.\<close>

definition init_rss_irn :: rss_irn where
  "init_rss_irn = \<lparr> consumer_list = [], consumer = None, parent_list = [], parents_arr = None,
     descendant_list = [], descendants = None, pkiller_list = [], pkillers = None,
     dvg_desc_list = [], dvg_desc = None, dvg_pkiller_list = [], dvg_pkiller = None,
     kill_value_list = [], dvg_user_list = [], killer = None, chain_ptr = None,
     live_out = False, visited = False, handled = False \<rparr>"

text \<open>The phase data of a block: the \<^verbatim>\<open>rss_irn_t\<close> of every node (\<^verbatim>\<open>get_rss_irn\<close>).\<close>

type_synonym phase = "node \<Rightarrow> rss_irn"

text \<open>\<^verbatim>\<open>plist_has_value\<close>, \<^verbatim>\<open>plist_insert_back\<close>, \<^verbatim>\<open>plist_count\<close>.\<close>

definition plist_has_value :: "node list \<Rightarrow> node \<Rightarrow> bool" where
  "plist_has_value l v = (v \<in> set l)"

definition plist_insert_back :: "node list \<Rightarrow> node \<Rightarrow> node list" where
  "plist_insert_back l v = l @ [v]"

definition plist_count :: "node list \<Rightarrow> nat" where
  "plist_count l = length l"

text \<open>\<^verbatim>\<open>build_sorted_array_from_list\<close>: copy the list and sort it by node index.\<close>

definition build_sorted_array_from_list :: "node list \<Rightarrow> node list" where
  "build_sorted_array_from_list irn_list = sort irn_list"

subsection \<open>Searching a sorted array\<close>

text \<open>The C library's \<^verbatim>\<open>bsearch\<close> with \<^verbatim>\<open>cmp_irn_idx\<close>: a binary search of
  \<open>num\<close> slots from slot \<open>base\<close>; the result is the slot found, or nothing.\<close>

function bsearch :: "node \<Rightarrow> node list \<Rightarrow> nat \<Rightarrow> nat \<Rightarrow> nat option" where
  "bsearch key arr base num =
     (if num = 0 then None
      else let mid = base + num div 2 in
        if key = arr ! mid then Some mid
        else if key < arr ! mid then bsearch key arr base (num div 2)
        else bsearch key arr (mid + 1) (num - num div 2 - 1))"
  by pat_completeness auto
termination
  by (relation "measure (\<lambda>(key, arr, base, num). num)") auto

declare bsearch.simps [simp del]

text \<open>\<^verbatim>\<open>BSEARCH_IRN_ARR(val, arr)\<close>: \<^verbatim>\<open>ARR_LEN\<close> reads the header in front of the
  array, so a \<^verbatim>\<open>NULL\<close> array is an access through \<^verbatim>\<open>NULL\<close>.\<close>

definition BSEARCH_IRN_ARR :: "node \<Rightarrow> node list option \<Rightarrow> error + nat option" where
  "BSEARCH_IRN_ARR val arr =
     (case arr of None \<Rightarrow> Inl NullDeref
      | Some a \<Rightarrow> Inr (bsearch val a 0 (length a)))"

text \<open>Addresses that \<^verbatim>\<open>is_potential_killer\<close> compares: \<^verbatim>\<open>bsearch\<close> returns the address
  of an array slot, which the code stores in an \<^verbatim>\<open>ir_node *\<close> and compares with the
  address of a node.\<close>

datatype addr = Irn node | Elem nat

subsection \<open>Potential killers\<close>

text \<open>The loop of \<^verbatim>\<open>is_potential_killer\<close> over the shorter list:
  \<^verbatim>\<open>if (match && match != irn) return 0;\<close>\<close>

fun pk_scan :: "node list \<Rightarrow> node list option \<Rightarrow> error + bool" where
  "pk_scan [] arr = Inr True"
| "pk_scan (irn # list) arr =
     (case BSEARCH_IRN_ARR irn arr of
        Inl e \<Rightarrow> Inl e
      | Inr None \<Rightarrow> pk_scan list arr
      | Inr (Some match) \<Rightarrow>
          if Elem match \<noteq> Irn irn then Inr False else pk_scan list arr)"

definition is_potential_killer :: "rss_irn \<Rightarrow> rss_irn \<Rightarrow> error + bool" where
  "is_potential_killer v u =
     (if plist_count (descendant_list v) > plist_count (consumer_list u)
      then pk_scan (consumer_list u) (descendants v)
      else pk_scan (descendant_list v) (consumer u))"

text \<open>The body of the inner loop of \<^verbatim>\<open>compute_pkill_set\<close> for the consumer \<open>v_irn\<close>
  of \<open>u_irn\<close>.\<close>

definition record_pkiller :: "node \<Rightarrow> node \<Rightarrow> phase \<Rightarrow> phase" where
  "record_pkiller u_irn v_irn ph =
     (let ph1 = (if \<not> plist_has_value (pkiller_list (ph u_irn)) v_irn
                 then ph(u_irn := (ph u_irn)\<lparr>pkiller_list :=
                        plist_insert_back (pkiller_list (ph u_irn)) v_irn\<rparr>)
                 else ph)
      in if \<not> plist_has_value (kill_value_list (ph1 v_irn)) u_irn
         then ph1(v_irn := (ph1 v_irn)\<lparr>kill_value_list :=
                plist_insert_back (kill_value_list (ph1 v_irn)) u_irn\<rparr>)
         else ph1)"

fun pkill_consumers :: "node \<Rightarrow> node list \<Rightarrow> phase \<Rightarrow> error + phase" where
  "pkill_consumers u_irn [] ph = Inr ph"
| "pkill_consumers u_irn (v_irn # vs) ph =
     (case is_potential_killer (ph v_irn) (ph u_irn) of
        Inl e \<Rightarrow> Inl e
      | Inr True \<Rightarrow> pkill_consumers u_irn vs (record_pkiller u_irn v_irn ph)
      | Inr False \<Rightarrow> pkill_consumers u_irn vs ph)"

text \<open>\<^verbatim>\<open>compute_pkill_set\<close>: for every node of \<^verbatim>\<open>rss->nodes\<close>, test each consumer
  and then set the killer to the sink.\<close>

fun compute_pkill_set :: "node \<Rightarrow> node list \<Rightarrow> phase \<Rightarrow> error + phase" where
  "compute_pkill_set sink [] ph = Inr ph"
| "compute_pkill_set sink (u_irn # us) ph =
     (case pkill_consumers u_irn (consumer_list (ph u_irn)) ph of
        Inl e \<Rightarrow> Inl e
      | Inr ph1 \<Rightarrow>
          compute_pkill_set sink us (ph1(u_irn := (ph1 u_irn)\<lparr>killer := Some sink\<rparr>)))"

subsection \<open>The register budget\<close>

text \<open>Modelled from the spec: \<^verbatim>\<open>bitset.h\<close> is not among the sources. A bitset of the
  registers of a class is a list of bits; \<^verbatim>\<open>bitset_andnot(a, b)\<close> clears in \<open>a\<close> the bits
  set in \<open>b\<close> and \<^verbatim>\<open>bitset_popcnt\<close> counts the bits set.\<close>

type_synonym bitset = "bool list"

definition bitset_andnot :: "bitset \<Rightarrow> bitset \<Rightarrow> bitset" where
  "bitset_andnot a b = map2 (\<lambda>x y. x \<and> \<not> y) a b"

definition bitset_popcnt :: "bitset \<Rightarrow> nat" where
  "bitset_popcnt a = length (filter (\<lambda>x. x) a)"

text \<open>The first lines of \<^verbatim>\<open>perform_value_serialization_heuristic\<close>: the two bitsets are
  filled by the architecture and the ABI, then
  \<^verbatim>\<open>bitset_andnot(arch_nonign_bs, abi_ign_bs); available_regs = bitset_popcnt(arch_nonign_bs);\<close>\<close>

definition available_regs :: "bitset \<Rightarrow> bitset \<Rightarrow> int" where
  "available_regs arch_nonign_bs abi_ign_bs =
     int (bitset_popcnt (bitset_andnot arch_nonign_bs abi_ign_bs))"

subsection \<open>The IR graph and the node information\<close>

text \<open>What the pass reads of the IR library and of the architecture description, which
  are outside this file: the users of a node (\<^verbatim>\<open>foreach_out_edge\<close> with
  \<^verbatim>\<open>get_edge_src_irn\<close>; for a block, the nodes in it), \<^verbatim>\<open>get_nodes_block\<close>,
  \<^verbatim>\<open>get_irn_mode\<close> (control flow, tuple, \<^verbatim>\<open>mode_ANY\<close> or another mode),
  \<^verbatim>\<open>arch_irn_is(..., ignore)\<close>, \<^verbatim>\<open>arch_get_irn_reg_class\<close>, the register classes with their
  non-ignore and ABI-reserved registers, the blocks in the order of
  \<^verbatim>\<open>irg_block_walk_graph\<close>, \<^verbatim>\<open>get_irg_start_block\<close>, the next free node index, and the
  dependency edges, which \<^verbatim>\<open>add_irn_dep\<close> extends.\<close>

datatype ir_mode = mode_X | mode_T | mode_ANY | mode_data

record ir_graph =
  out_edges :: "node \<Rightarrow> node list"
  nodes_block :: "node \<Rightarrow> node"
  irn_mode :: "node \<Rightarrow> ir_mode"
  is_ignore :: "node \<Rightarrow> bool"
  irn_reg_class :: "node \<Rightarrow> nat option"
  n_reg_class :: nat
  non_ignore_regs :: "nat \<Rightarrow> bool list"
  abi_ignore_regs :: "nat \<Rightarrow> bool list"
  blocks :: "node list"
  start_block :: node
  last_idx :: nat
  dep_edges :: "rss_edge list"

text \<open>Modelled from the spec: \<^verbatim>\<open>new_ir_node\<close> is not among the sources (``Allocate new
  op-codes and new nodes for Source/Sink''). The node made gets the next free index of the
  graph and the mode given, has no user, and becomes a user of its block, where it is put
  first. The op-codes are read nowhere in the pass.\<close>

definition new_ir_node :: "ir_graph \<Rightarrow> node \<Rightarrow> ir_mode \<Rightarrow> ir_graph \<times> node" where
  "new_ir_node G block m =
     (G\<lparr>out_edges := (out_edges G)(last_idx G := [], block := last_idx G # out_edges G block),
        nodes_block := (nodes_block G)(last_idx G := block),
        irn_mode := (irn_mode G)(last_idx G := m),
        last_idx := Suc (last_idx G)\<rparr>,
      last_idx G)"

text \<open>\<^verbatim>\<open>init_rss_special_nodes\<close>: ``create source and sink nodes'' in the start block. The
  result is the graph, \<^verbatim>\<open>_source\<close> and \<^verbatim>\<open>_sink\<close>.\<close>

definition init_rss_special_nodes :: "ir_graph \<Rightarrow> ir_graph \<times> node \<times> node" where
  "init_rss_special_nodes G =
     (case new_ir_node G (start_block G) mode_ANY of
        (G1, source) \<Rightarrow>
          (case new_ir_node G1 (start_block G) mode_ANY of
             (G2, sink) \<Rightarrow> (G2, source, sink)))"

text \<open>A loop over a list whose body may not return.\<close>

fun for_each :: "('a \<Rightarrow> 's \<Rightarrow> 's option) \<Rightarrow> 'a list \<Rightarrow> 's \<Rightarrow> 's option" where
  "for_each f [] s = Some s"
| "for_each f (x # xs) s = (case f x s of None \<Rightarrow> None | Some s1 \<Rightarrow> for_each f xs s1)"

text \<open>\<^verbatim>\<open>collect_descendants\<close>: the state is the descendant list and \<open>got_sink\<close>. The
  recursion follows every user inside the block and does not end on a cycle; \<open>fuel\<close> bounds
  its depth, and \<open>None\<close> says that the bound was reached.\<close>

primrec collect_descendants :: "nat \<Rightarrow> ir_graph \<Rightarrow> node \<Rightarrow> node \<Rightarrow> node \<Rightarrow> node list \<times> bool
    \<Rightarrow> (node list \<times> bool) option" where
  "collect_descendants 0 G sink block irn st = None"
| "collect_descendants (Suc fuel) G sink block irn st =
     for_each
       (\<lambda>user st1.
          if is_ignore G user then Some st1
          else if nodes_block G user = block \<and> irn_mode G user \<noteq> mode_X then
            collect_descendants fuel G sink block user
              (if irn_mode G user \<noteq> mode_T \<and> \<not> plist_has_value (fst st1) user
               then (plist_insert_back (fst st1) user, snd st1) else st1)
          else if \<not> snd st1 then Some (plist_insert_back (fst st1) sink, True)
          else Some st1)
       (out_edges G irn) st"

text \<open>\<^verbatim>\<open>collect_single_consumer\<close>, the loop over the Projs of a tuple: the consumer list.\<close>

fun collect_projs :: "ir_graph \<Rightarrow> node \<Rightarrow> node list \<Rightarrow> node list \<Rightarrow> error + node list" where
  "collect_projs G block [] cl = Inr cl"
| "collect_projs G block (cons_proj # ps) cl =
     (if nodes_block G cons_proj \<noteq> block then Inl AssertFail
      else if is_ignore G cons_proj then collect_projs G block ps cl
      else collect_projs G block ps (plist_insert_back cl cons_proj))"

text \<open>\<^verbatim>\<open>collect_single_consumer\<close>: the state is the consumer list, \<open>live_out\<close> and
  \<open>got_sink\<close>.\<close>

definition collect_single_consumer :: "ir_graph \<Rightarrow> node \<Rightarrow> node \<Rightarrow> node
    \<Rightarrow> node list \<times> bool \<times> bool \<Rightarrow> error + node list \<times> bool \<times> bool" where
  "collect_single_consumer G sink block consumer_irn st =
     (case st of (cl, lo, got_sink) \<Rightarrow>
        if nodes_block G consumer_irn = block then
          (if irn_mode G consumer_irn = mode_T then
             (case collect_projs G block (out_edges G consumer_irn) cl of
                Inl e \<Rightarrow> Inl e
              | Inr cl1 \<Rightarrow> Inr (cl1, lo, got_sink))
           else if \<not> is_ignore G consumer_irn
           then Inr (plist_insert_back cl consumer_irn, lo, got_sink)
           else Inr (cl, lo, got_sink))
        else if \<not> got_sink then Inr (plist_insert_back cl sink, True, True)
        else Inr (cl, True, got_sink))"

text \<open>\<^verbatim>\<open>collect_consumer\<close>: the loop over the users.\<close>

fun collect_consumer :: "ir_graph \<Rightarrow> node \<Rightarrow> node \<Rightarrow> node list \<Rightarrow> node list \<times> bool \<times> bool
    \<Rightarrow> error + node list \<times> bool \<times> bool" where
  "collect_consumer G sink block [] st = Inr st"
| "collect_consumer G sink block (c # cs) st =
     (case collect_single_consumer G sink block c st of
        Inl e \<Rightarrow> Inl e
      | Inr st1 \<Rightarrow> collect_consumer G sink block cs st1)"

text \<open>\<^verbatim>\<open>collect_node_info\<close>.\<close>

definition collect_node_info :: "nat \<Rightarrow> ir_graph \<Rightarrow> node \<Rightarrow> node \<Rightarrow> phase \<Rightarrow> node
    \<Rightarrow> (error + phase) option" where
  "collect_node_info fuel G sink block ph n =
     (if irn_mode G n = mode_T then Some (Inl AssertFail)
      else if handled (ph n) then Some (Inr ph)
      else
        (case collect_consumer G sink block (out_edges G n)
                (consumer_list (ph n), live_out (ph n), False) of
           Inl e \<Rightarrow> Some (Inl e)
         | Inr (cl, lo, got_sink) \<Rightarrow>
             (case collect_descendants fuel G sink block n (descendant_list (ph n), False) of
                None \<Rightarrow> None
              | Some (dl, got_sink1) \<Rightarrow>
                  Some (Inr (ph(n := (ph n)\<lparr>consumer_list := cl,
                      consumer := Some (build_sorted_array_from_list cl), live_out := lo,
                      descendant_list := dl,
                      descendants := Some (build_sorted_array_from_list dl),
                      handled := True\<rparr>))))))"

subsection \<open>Node sets and edge sets\<close>

text \<open>A \<^verbatim>\<open>nodeset\<close> is a list without repetition, in the order of insertion; a
  \<^verbatim>\<open>pset\<close> of edges compared by \<^verbatim>\<open>cmp_rss_edges\<close> (source and target) likewise.
  The order in which the hash sets of the source are iterated is the order of this list.\<close>

definition nodeset_find :: "node list \<Rightarrow> node \<Rightarrow> bool" where
  "nodeset_find s n = (n \<in> set s)"

definition nodeset_insert :: "node list \<Rightarrow> node \<Rightarrow> node list" where
  "nodeset_insert s n = (if n \<in> set s then s else s @ [n])"

definition nodeset_remove :: "node list \<Rightarrow> node \<Rightarrow> node list" where
  "nodeset_remove s n = removeAll n s"

definition nodeset_count :: "node list \<Rightarrow> nat" where
  "nodeset_count s = length s"

definition pset_find :: "rss_edge list \<Rightarrow> rss_edge \<Rightarrow> bool" where
  "pset_find s e = (e \<in> set s)"

definition pset_insert :: "rss_edge list \<Rightarrow> rss_edge \<Rightarrow> rss_edge list" where
  "pset_insert s e = (if e \<in> set s then s else s @ [e])"

definition pset_count :: "rss_edge list \<Rightarrow> nat" where
  "pset_count s = length s"

subsection \<open>Connected bipartite components\<close>

text \<open>\<^verbatim>\<open>cbc_t\<close>.\<close>

record cbc =
  cbc_parents :: "node list"
  cbc_children :: "node list"
  kill_edges :: "rss_edge list"
  cbc_nr :: nat

text \<open>\<^verbatim>\<open>build_kill_edges\<close>: an edge from every node of \<^verbatim>\<open>rss->nodes\<close> to each of its
  potential killers.\<close>

fun build_kill_edges :: "phase \<Rightarrow> node list \<Rightarrow> rss_edge list \<Rightarrow> rss_edge list" where
  "build_kill_edges ph [] epk = epk"
| "build_kill_edges ph (irn # ns) epk =
     build_kill_edges ph ns
       (foldl (\<lambda>e pkiller. pset_insert e (irn, pkiller)) epk (pkiller_list (ph irn)))"

text \<open>The two inner loops of the closure: insert every value of a list that the set
  does not hold yet, and remember that the set changed.\<close>

fun insert_new :: "node list \<Rightarrow> node list \<Rightarrow> bool \<Rightarrow> node list \<times> bool" where
  "insert_new s [] change = (s, change)"
| "insert_new s (val # vals) change =
     (if \<not> nodeset_find s val then insert_new (nodeset_insert s val) vals True
      else insert_new s vals change)"

text \<open>``accumulate parents'': for every child, the values it may kill.\<close>

fun accumulate_parents :: "phase \<Rightarrow> node list \<Rightarrow> node list \<Rightarrow> bool \<Rightarrow> node list \<times> bool" where
  "accumulate_parents ph [] parents p_change = (parents, p_change)"
| "accumulate_parents ph (t_irn # ts) parents p_change =
     (case insert_new parents (kill_value_list (ph t_irn)) p_change of
        (parents1, p1) \<Rightarrow> accumulate_parents ph ts parents1 p1)"

text \<open>``accumulate children'': for every parent, its potential killers.\<close>

fun accumulate_children :: "phase \<Rightarrow> node list \<Rightarrow> node list \<Rightarrow> bool \<Rightarrow> node list \<times> bool" where
  "accumulate_children ph [] children c_change = (children, c_change)"
| "accumulate_children ph (s_irn # ss) children c_change =
     (case insert_new children (pkiller_list (ph s_irn)) c_change of
        (children1, c1) \<Rightarrow> accumulate_children ph ss children1 c1)"

text \<open>\<^verbatim>\<open>while (p_change || c_change)\<close>: both flags start at 1, so the body runs at
  least once; the loop ends when a round adds nothing.\<close>

partial_function (option) cbc_closure ::
  "phase \<Rightarrow> node list \<Rightarrow> node list \<Rightarrow> (node list \<times> node list) option" where
  "cbc_closure ph parents children =
     (case accumulate_parents ph children parents False of
        (parents1, p_change) \<Rightarrow>
          (case accumulate_children ph parents1 children False of
             (children1, c_change) \<Rightarrow>
               if p_change \<or> c_change then cbc_closure ph parents1 children1
               else Some (parents1, children1)))"

declare cbc_closure.simps [code]

text \<open>``mark all parent values as visited'' and ``assure bipartite property''.\<close>

fun mark_parents :: "node list \<Rightarrow> phase \<Rightarrow> node list \<Rightarrow> phase \<times> node list" where
  "mark_parents [] ph children = (ph, children)"
| "mark_parents (s_irn # ss) ph children =
     mark_parents ss (ph(s_irn := (ph s_irn)\<lparr>visited := True\<rparr>))
       (if nodeset_find children s_irn then nodeset_remove children s_irn else children)"

text \<open>``update edges'': the edges of \<open>epk\<close> from a parent to a child.\<close>

definition cbc_edge :: "node list \<Rightarrow> node list \<Rightarrow> rss_edge \<Rightarrow> bool" where
  "cbc_edge parents children k_edge =
     (nodeset_find parents (fst k_edge) \<and> nodeset_find children (snd k_edge))"

text \<open>The loop of \<^verbatim>\<open>compute_bipartite_decomposition\<close> over \<^verbatim>\<open>rss->nodes\<close>.\<close>

fun decompose :: "node \<Rightarrow> phase \<Rightarrow> node list \<Rightarrow> rss_edge list \<Rightarrow> cbc list \<Rightarrow> nat
    \<Rightarrow> (phase \<times> cbc list) option" where
  "decompose sink ph [] epk cbc_set cur_num = Some (ph, cbc_set)"
| "decompose sink ph (u_irn # us) epk cbc_set cur_num =
     (if visited (ph u_irn) \<or> u_irn = sink then decompose sink ph us epk cbc_set cur_num
      else
        (case cbc_closure ph (nodeset_insert [] u_irn)
                (foldl nodeset_insert [] (pkiller_list (ph u_irn))) of
           None \<Rightarrow> None
         | Some (parents, children) \<Rightarrow>
             (case mark_parents parents ph children of
                (ph1, children1) \<Rightarrow>
                  decompose sink ph1 us
                    (filter (\<lambda>k_edge. \<not> cbc_edge parents children1 k_edge) epk)
                    (cbc_set @
                      [\<lparr> cbc_parents = parents, cbc_children = children1,
                         kill_edges = foldl pset_insert []
                           (filter (cbc_edge parents children1) epk),
                         cbc_nr = cur_num \<rparr>])
                    (cur_num + 1))))"

definition compute_bipartite_decomposition ::
  "node \<Rightarrow> phase \<Rightarrow> node list \<Rightarrow> (phase \<times> cbc list) option" where
  "compute_bipartite_decomposition sink ph nodes =
     decompose sink ph nodes (build_kill_edges ph nodes []) [] 0"

subsection \<open>The greedy killing function\<close>

text \<open>\<^verbatim>\<open>child_t\<close>. The cost is a \<^verbatim>\<open>float\<close>; the type \<open>'f\<close> and the operations used on
  it (the conversion from \<^verbatim>\<open>int\<close>, the division, the comparison \<^verbatim>\<open>>\<close>) are
  parameters, and so is the \<^verbatim>\<open>qsort\<close> of the C library.\<close>

record 'f child =
  irn :: "node option"
  cost :: 'f

record 'f float_ops =
  float_of :: "int \<Rightarrow> 'f"
  float_div :: "'f \<Rightarrow> 'f \<Rightarrow> 'f"
  float_gt :: "'f \<Rightarrow> 'f \<Rightarrow> bool"

text \<open>\<^verbatim>\<open>select_child_max_cost\<close>: the loop over the children; \<open>t\<close> arrives zeroed.\<close>

fun select_child_scan :: "'f float_ops \<Rightarrow> phase \<Rightarrow> node list \<Rightarrow> node list \<Rightarrow> cbc
    \<Rightarrow> node list \<Rightarrow> 'f child \<Rightarrow> 'f \<Rightarrow> 'f child" where
  "select_child_scan F ph x y c [] t max_cost = t"
| "select_child_scan F ph x y c (child # cs) t max_cost =
     (let num_unkilled_parents =
            length (filter (\<lambda>k_edge. snd k_edge = child \<and> nodeset_find x (fst k_edge))
                      (kill_edges c));
          cost0 = float_of F (int num_unkilled_parents);
          num_descendants = plist_count (descendant_list (ph child)) + nodeset_count y;
          cost1 = (if num_descendants > 0
                   then float_div F cost0 (float_of F (int num_descendants)) else cost0)
      in if float_gt F cost1 max_cost
         then select_child_scan F ph x y c cs \<lparr> irn = Some child, cost = cost1 \<rparr> cost1
         else select_child_scan F ph x y c cs t max_cost)"

definition select_child_max_cost :: "'f float_ops \<Rightarrow> phase \<Rightarrow> node list \<Rightarrow> node list \<Rightarrow> cbc
    \<Rightarrow> 'f child" where
  "select_child_max_cost F ph x y c =
     select_child_scan F ph x y c (cbc_children c)
       \<lparr> irn = None, cost = float_of F 0 \<rparr> (float_of F (- 1))"

text \<open>\<^verbatim>\<open>remove_covered_parents\<close>: the loop over the kill edges of the component.\<close>

fun remove_covered_parents :: "node \<Rightarrow> rss_edge list \<Rightarrow> phase \<Rightarrow> node list
    \<Rightarrow> phase \<times> node list" where
  "remove_covered_parents t_irn [] ph x = (ph, x)"
| "remove_covered_parents t_irn (k_edge # es) ph x =
     (if snd k_edge = t_irn \<and> nodeset_find x (fst k_edge)
      then remove_covered_parents t_irn es
             (ph(t_irn := (ph t_irn)\<lparr>parent_list :=
                   plist_insert_back (parent_list (ph t_irn)) (fst k_edge)\<rparr>))
             (nodeset_remove x (fst k_edge))
      else remove_covered_parents t_irn es ph x)"

definition update_cumulated_descendent_values :: "phase \<Rightarrow> node list \<Rightarrow> node \<Rightarrow> node list" where
  "update_cumulated_descendent_values ph y t_irn =
     foldl nodeset_insert y (descendant_list (ph t_irn))"

text \<open>\<^verbatim>\<open>while (nodeset_count(x) > 0)\<close> of \<^verbatim>\<open>compute_killing_function\<close>. When the
  component has no child, \<open>t->irn\<close> stays \<^verbatim>\<open>NULL\<close> and \<^verbatim>\<open>remove_covered_parents\<close> asks
  for its \<^verbatim>\<open>rss_irn_t\<close>.\<close>

partial_function (option) sks_loop :: "'f float_ops \<Rightarrow> cbc \<Rightarrow> phase \<Rightarrow> node list \<Rightarrow> node list
    \<Rightarrow> 'f child list \<Rightarrow> (error + phase \<times> 'f child list) option" where
  "sks_loop F c ph x y sks =
     (if nodeset_count x > 0 then
        (case irn (select_child_max_cost F ph x y c) of
           None \<Rightarrow> Some (Inl NullDeref)
         | Some t_irn \<Rightarrow>
             (case remove_covered_parents t_irn (kill_edges c) ph x of
                (ph1, x1) \<Rightarrow>
                  sks_loop F c ph1 x1 (update_cumulated_descendent_values ph1 y t_irn)
                    (sks @ [select_child_max_cost F ph x y c])))
      else Some (Inr (ph, sks)))"

declare sks_loop.simps [code]

text \<open>``kill all unkilled parents of t''.\<close>

fun kill_parents :: "node \<Rightarrow> node \<Rightarrow> node list \<Rightarrow> phase \<Rightarrow> phase" where
  "kill_parents sink t_irn [] ph = ph"
| "kill_parents sink t_irn (par # ps) ph =
     (if killer (ph par) = Some sink
      then kill_parents sink t_irn ps (ph(par := (ph par)\<lparr>killer := Some t_irn\<rparr>))
      else kill_parents sink t_irn ps ph)"

text \<open>``build killing function'': the children of \<open>sks\<close> in the order given.\<close>

fun build_killing_function :: "node \<Rightarrow> 'f child list \<Rightarrow> phase \<Rightarrow> error + phase" where
  "build_killing_function sink [] ph = Inr ph"
| "build_killing_function sink (t # ts) ph =
     (case irn t of
        None \<Rightarrow> Inl NullDeref
      | Some t_irn \<Rightarrow>
          build_killing_function sink ts (kill_parents sink t_irn (parent_list (ph t_irn)) ph))"

text \<open>The loop of \<^verbatim>\<open>compute_killing_function\<close> over the components: \<open>X\<close> starts as
  the parents, \<open>sks\<close> is sorted by increasing cost and walked from its end.\<close>

fun killing_cbcs :: "'f float_ops \<Rightarrow> ('f child list \<Rightarrow> 'f child list) \<Rightarrow> node \<Rightarrow> cbc list
    \<Rightarrow> phase \<Rightarrow> (error + phase) option" where
  "killing_cbcs F qsort sink [] ph = Some (Inr ph)"
| "killing_cbcs F qsort sink (c # cs) ph =
     (case sks_loop F c ph (foldl nodeset_insert [] (cbc_parents c)) [] [] of
        None \<Rightarrow> None
      | Some (Inl e) \<Rightarrow> Some (Inl e)
      | Some (Inr (ph1, sks)) \<Rightarrow>
          (case build_killing_function sink (rev (qsort sks)) ph1 of
             Inl e \<Rightarrow> Some (Inl e)
           | Inr ph2 \<Rightarrow> killing_cbcs F qsort sink cs ph2))"

definition compute_killing_function :: "'f float_ops \<Rightarrow> ('f child list \<Rightarrow> 'f child list)
    \<Rightarrow> node \<Rightarrow> node list \<Rightarrow> phase \<Rightarrow> (error + phase) option" where
  "compute_killing_function F qsort sink nodes ph =
     (case compute_bipartite_decomposition sink ph nodes of
        None \<Rightarrow> None
      | Some (ph1, cbc_set) \<Rightarrow> killing_cbcs F qsort sink cbc_set ph1)"

subsection \<open>The disjoint value DAG\<close>

text \<open>\<^verbatim>\<open>dvg_t\<close>.\<close>

record dvg =
  nodes :: "node list"
  edges :: "rss_edge list"

text \<open>\<^verbatim>\<open>while (cur_killer != old_killer)\<close> of \<^verbatim>\<open>compute_dvg\<close>: an edge from \<open>u_irn\<close>
  to every node on its killer chain. \<^verbatim>\<open>get_rss_irn(rss, cur_killer)\<close> reads through the
  pointer; the \<^verbatim>\<open>assert\<close> looks for the reverse edge before the edge is inserted.\<close>

partial_function (option) dvg_follow :: "phase \<Rightarrow> node \<Rightarrow> node option \<Rightarrow> node option \<Rightarrow> dvg
    \<Rightarrow> (error + dvg) option" where
  "dvg_follow ph u_irn cur_killer old_killer d =
     (if cur_killer \<noteq> old_killer then
        (case cur_killer of
           None \<Rightarrow> Some (Inl NullDeref)
         | Some ck \<Rightarrow>
             if pset_find (edges d) (ck, u_irn) then Some (Inl AssertFail)
             else dvg_follow ph u_irn (killer (ph ck)) cur_killer
                    \<lparr> nodes = nodeset_insert (nodes d) ck,
                      edges = pset_insert (edges d) (u_irn, ck) \<rparr>)
      else Some (Inr d))"

declare dvg_follow.simps [code]

text \<open>\<^verbatim>\<open>compute_dvg\<close>: the loop over \<^verbatim>\<open>rss->nodes\<close>; \<open>old_killer\<close> starts as \<^verbatim>\<open>NULL\<close>.\<close>

fun compute_dvg :: "phase \<Rightarrow> node list \<Rightarrow> dvg \<Rightarrow> (error + dvg) option" where
  "compute_dvg ph [] d = Some (Inr d)"
| "compute_dvg ph (u_irn # us) d =
     (case dvg_follow ph u_irn (killer (ph u_irn)) None
             (d\<lparr>nodes := nodeset_insert (nodes d) u_irn\<rparr>) of
        None \<Rightarrow> None
      | Some (Inl e) \<Rightarrow> Some (Inl e)
      | Some (Inr d1) \<Rightarrow> compute_dvg ph us d1)"

subsection \<open>The antichain\<close>

text \<open>\<^verbatim>\<open>bsearch_for_index\<close>: \<open>right\<close> starts at \<open>len\<close>, so the slot read may be the one
  past the end. \<open>left\<close> is never negative, so the C division is \<open>div\<close>.\<close>

function bsearch_for_index_loop :: "int \<Rightarrow> int list \<Rightarrow> int \<Rightarrow> int \<Rightarrow> error + int option" where
  "bsearch_for_index_loop key arr left right =
     (if right \<ge> left then
        let idx = (left + right) div 2 in
        if idx < 0 \<or> idx \<ge> int (length arr) then Inl OutOfBounds
        else if key < arr ! nat idx then bsearch_for_index_loop key arr left (idx - 1)
        else if key > arr ! nat idx then bsearch_for_index_loop key arr (idx + 1) right
        else Inr (Some idx)
      else Inr None)"
  by pat_completeness auto
termination
  by (relation "measure (\<lambda>(key, arr, left, right). nat (right - left + 1))") auto

declare bsearch_for_index_loop.simps [simp del]

definition bsearch_for_index :: "int \<Rightarrow> int list \<Rightarrow> bool \<Rightarrow> error + int" where
  "bsearch_for_index key arr force =
     (case bsearch_for_index_loop key arr 0 (int (length arr)) of
        Inl e \<Rightarrow> Inl e
      | Inr (Some idx) \<Rightarrow> Inr idx
      | Inr None \<Rightarrow> if force then Inl AssertFail else Inr (- 1))"

text \<open>The loop over the DVG edges: \<^verbatim>\<open>hungarian_add(bp, MAP_IDX(src), MAP_IDX(tgt), 1)\<close>.
  The entries added are collected in a list.\<close>

fun add_bipartite_entries :: "int list \<Rightarrow> rss_edge list \<Rightarrow> (int \<times> int) list
    \<Rightarrow> error + (int \<times> int) list" where
  "add_bipartite_entries idx_map [] bp = Inr bp"
| "add_bipartite_entries idx_map (dvg_edge # es) bp =
     (case bsearch_for_index (int (fst dvg_edge)) idx_map True of
        Inl e \<Rightarrow> Inl e
      | Inr idx_u \<Rightarrow>
          (case bsearch_for_index (int (snd dvg_edge)) idx_map True of
             Inl e \<Rightarrow> Inl e
           | Inr idx_v \<Rightarrow> add_bipartite_entries idx_map es (bp @ [(idx_u, idx_v)])))"

text \<open>\<^verbatim>\<open>build_dvg_pkiller_list\<close>, the two loops over the users of one node: \<open>el\<close> and
  \<open>el2\<close> are positions in \<^verbatim>\<open>dvg_user_list\<close>; the conjunction is evaluated from the left.\<close>

fun dvg_pkiller_users2 :: "phase \<Rightarrow> nat \<Rightarrow> node \<Rightarrow> (nat \<times> node) list \<Rightarrow> node list
    \<Rightarrow> error + node list" where
  "dvg_pkiller_users2 ph el u_irn [] l = Inr l"
| "dvg_pkiller_users2 ph el u_irn ((el2, v_irn) # rest) l =
     (if el \<noteq> el2 then
        (case BSEARCH_IRN_ARR u_irn (dvg_desc (ph v_irn)) of
           Inl e \<Rightarrow> Inl e
         | Inr (Some m) \<Rightarrow> dvg_pkiller_users2 ph el u_irn rest l
         | Inr None \<Rightarrow>
             if \<not> plist_has_value l u_irn
             then dvg_pkiller_users2 ph el u_irn rest (plist_insert_back l u_irn)
             else dvg_pkiller_users2 ph el u_irn rest l)
      else dvg_pkiller_users2 ph el u_irn rest l)"

fun dvg_pkiller_users :: "phase \<Rightarrow> (nat \<times> node) list \<Rightarrow> (nat \<times> node) list \<Rightarrow> node list
    \<Rightarrow> error + node list" where
  "dvg_pkiller_users ph users [] l = Inr l"
| "dvg_pkiller_users ph users ((el, u_irn) # rest) l =
     (case dvg_pkiller_users2 ph el u_irn users l of
        Inl e \<Rightarrow> Inl e
      | Inr l1 \<Rightarrow> dvg_pkiller_users ph users rest l1)"

fun build_dvg_pkiller_list :: "phase \<Rightarrow> node list \<Rightarrow> error + phase" where
  "build_dvg_pkiller_list ph [] = Inr ph"
| "build_dvg_pkiller_list ph (n # ns) =
     (case dvg_pkiller_users ph (enumerate 0 (dvg_user_list (ph n)))
             (enumerate 0 (dvg_user_list (ph n))) (dvg_pkiller_list (ph n)) of
        Inl e \<Rightarrow> Inl e
      | Inr l \<Rightarrow>
          build_dvg_pkiller_list
            (ph(n := (ph n)\<lparr>dvg_pkiller_list := l,
                           dvg_pkiller := Some (build_sorted_array_from_list l)\<rparr>)) ns)"

text \<open>\<^verbatim>\<open>chain_t\<close>. The chains allocated so far form a list; a \<^verbatim>\<open>chain_t *\<close> is a position
  in it.\<close>

record chain_t =
  elements :: "node list"
  chain_nr :: nat

text \<open>``build the reverse assignment'': every entry starts at -1.\<close>

definition build_assignment_rev :: "(nat \<Rightarrow> int) \<Rightarrow> nat \<Rightarrow> (nat \<Rightarrow> int)" where
  "build_assignment_rev assignment n =
     foldl (\<lambda>assignment_rev i.
              if assignment i \<ge> 0 then assignment_rev(nat (assignment i) := int i)
              else assignment_rev)
       (\<lambda>j. - 1) [0..<n]"

text \<open>``follow chain, having j as source'': \<^verbatim>\<open>while (assignment[source] >= 0)\<close>.
  \<^verbatim>\<open>get_idx_irn\<close> gives the node of an index.\<close>

partial_function (option) follow_chain :: "(nat \<Rightarrow> int) \<Rightarrow> int list \<Rightarrow> nat \<Rightarrow> nat \<Rightarrow> phase
    \<Rightarrow> chain_t list \<Rightarrow> (error + phase \<times> chain_t list) option" where
  "follow_chain assignment idx_map c source ph chain_heap =
     (if assignment source \<ge> 0 then
        (if nat (assignment source) \<ge> length idx_map then Some (Inl OutOfBounds)
         else
           follow_chain assignment idx_map c (nat (assignment source))
             (ph(nat (idx_map ! nat (assignment source)) :=
                  (ph (nat (idx_map ! nat (assignment source))))\<lparr>chain_ptr := Some c\<rparr>))
             (chain_heap[c := (chain_heap ! c)\<lparr>elements :=
                  plist_insert_back (elements (chain_heap ! c))
                    (nat (idx_map ! nat (assignment source)))\<rparr>]))
      else Some (Inr (ph, chain_heap)))"

declare follow_chain.simps [code]

text \<open>``Construction of the minimal chain partition'': the loop over \<open>j\<close>.\<close>

fun build_chains :: "(nat \<Rightarrow> int) \<Rightarrow> (nat \<Rightarrow> int) \<Rightarrow> int list \<Rightarrow> nat list \<Rightarrow> phase
    \<Rightarrow> chain_t list \<Rightarrow> node list \<Rightarrow> nat
    \<Rightarrow> (error + phase \<times> chain_t list \<times> node list) option" where
  "build_chains assignment assignment_rev idx_map [] ph chain_heap values cur_chain =
     Some (Inr (ph, chain_heap, values))"
| "build_chains assignment assignment_rev idx_map (j # js) ph chain_heap values cur_chain =
     (if assignment_rev j = - 1 then
        (case follow_chain assignment idx_map (length chain_heap) j
                (ph(nat (idx_map ! j) := (ph (nat (idx_map ! j)))\<lparr>chain_ptr := Some (length chain_heap)\<rparr>))
                (chain_heap @ [\<lparr> elements = [nat (idx_map ! j)], chain_nr = cur_chain \<rparr>]) of
           None \<Rightarrow> None
         | Some (Inl e) \<Rightarrow> Some (Inl e)
         | Some (Inr (ph1, chain_heap1)) \<Rightarrow>
             build_chains assignment assignment_rev idx_map js ph1 chain_heap1
               (nodeset_insert values (nat (idx_map ! j))) (cur_chain + 1))
      else build_chains assignment assignment_rev idx_map js ph chain_heap values cur_chain)"

text \<open>The loop over \<open>j\<close> inside the selection: it leaves at the first \<open>j\<close> other than
  \<open>i\<close> (the test whether \<open>val_arr[j]\<close> is a descendant is commented out in the source), and
  then \<open>u\<close> is moved.\<close>

fun other_index :: "nat \<Rightarrow> nat list \<Rightarrow> bool" where
  "other_index i [] = False"
| "other_index i (j # js) = (if i \<noteq> j then True else other_index i js)"

text \<open>``Select all nodes from current value set, having another node in the set as
  descendant'': the loop over \<open>i\<close>; \<open>val_arr\<close> is the copy of \<open>values\<close> made before.\<close>

fun select_nodes :: "node list \<Rightarrow> nat \<Rightarrow> nat list \<Rightarrow> node list \<Rightarrow> node list
    \<Rightarrow> node list \<times> node list" where
  "select_nodes val_arr n [] values temp = (values, temp)"
| "select_nodes val_arr n (i # is) values temp =
     (if other_index i [0..<n]
      then select_nodes val_arr n is (nodeset_remove values (val_arr ! i))
             (nodeset_insert temp (val_arr ! i))
      else select_nodes val_arr n is values temp)"

text \<open>\<^verbatim>\<open>plist_find_value\<close>: the first element holding the value, as a position.\<close>

fun plist_find_value :: "node list \<Rightarrow> node \<Rightarrow> nat option" where
  "plist_find_value [] v = None"
| "plist_find_value (x # xs) v =
     (if x = v then Some 0 else map_option Suc (plist_find_value xs v))"

text \<open>``Try to insert the chain predecessor of all selected u's''.\<close>

fun insert_predecessors :: "phase \<Rightarrow> chain_t list \<Rightarrow> node list \<Rightarrow> node list
    \<Rightarrow> error + node list" where
  "insert_predecessors ph chain_heap [] values = Inr values"
| "insert_predecessors ph chain_heap (u_irn # ts) values =
     (case chain_ptr (ph u_irn) of
        None \<Rightarrow> Inl NullDeref
      | Some c \<Rightarrow>
          if c \<ge> length chain_heap then Inl NullDeref
          else
            (case plist_find_value (elements (chain_heap ! c)) u_irn of
               None \<Rightarrow> Inl AssertFail
             | Some el \<Rightarrow>
                 if el > 0
                 then insert_predecessors ph chain_heap ts
                        (nodeset_insert values (elements (chain_heap ! c) ! (el - 1)))
                 else insert_predecessors ph chain_heap ts values))"

text \<open>The \<^verbatim>\<open>do { ... } while (nodeset_count(temp) > 0)\<close> of
  \<^verbatim>\<open>compute_maximal_antichain\<close>.\<close>

partial_function (option) antichain_loop :: "phase \<Rightarrow> chain_t list \<Rightarrow> node list
    \<Rightarrow> (error + node list) option" where
  "antichain_loop ph chain_heap values =
     (case select_nodes values (nodeset_count values) [0..<nodeset_count values] values [] of
        (values1, temp) \<Rightarrow>
          (case insert_predecessors ph chain_heap temp values1 of
             Inl e \<Rightarrow> Some (Inl e)
           | Inr values2 \<Rightarrow>
               if nodeset_count temp > 0 then antichain_loop ph chain_heap values2
               else Some (Inr values2)))"

declare antichain_loop.simps [code]

text \<open>\<^verbatim>\<open>compute_maximal_antichain\<close>. The matching is computed outside this file:
  \<open>hungarian_solve n bp\<close> stands for \<^verbatim>\<open>hungarian_new\<close>, the entries \<open>bp\<close>,
  \<^verbatim>\<open>hungarian_prepare_cost_matrix\<close> and \<^verbatim>\<open>hungarian_solve\<close>, and gives the cost and the
  assignment. The result is the phase, the chains and the set returned (\<^verbatim>\<open>NULL\<close> when
  the DVG has no edge).\<close>

definition compute_maximal_antichain ::
  "(nat \<Rightarrow> (int \<times> int) list \<Rightarrow> int \<times> (nat \<Rightarrow> int)) \<Rightarrow> phase \<Rightarrow> chain_t list \<Rightarrow> dvg
    \<Rightarrow> (error + phase \<times> chain_t list \<times> node list option) option" where
  "compute_maximal_antichain hungarian_solve ph chain_heap d =
     (let n = nodeset_count (nodes d) in
      if pset_count (edges d) = 0 then Some (Inr (ph, chain_heap, None))
      else
        let idx_map = sort (map int (nodes d)) in
        (case add_bipartite_entries idx_map (edges d) [] of
           Inl e \<Rightarrow> Some (Inl e)
         | Inr bp \<Rightarrow>
             (case build_dvg_pkiller_list ph (nodes d) of
                Inl e \<Rightarrow> Some (Inl e)
              | Inr ph1 \<Rightarrow>
                  (case hungarian_solve n bp of
                     (match_cost, assignment) \<Rightarrow>
                       if \<not> match_cost \<ge> 0 then Some (Inl AssertFail)
                       else
                         (case build_chains assignment (build_assignment_rev assignment n)
                                 idx_map [0..<n] ph1 chain_heap [] 0 of
                            None \<Rightarrow> None
                          | Some (Inl e) \<Rightarrow> Some (Inl e)
                          | Some (Inr (ph2, chain_heap2, values)) \<Rightarrow>
                              (case antichain_loop ph2 chain_heap2 values of
                                 None \<Rightarrow> None
                               | Some (Inl e) \<Rightarrow> Some (Inl e)
                               | Some (Inr values1) \<Rightarrow>
                                   Some (Inr (ph2, chain_heap2, Some values1))))))))"

text \<open>\<^verbatim>\<open>compute_maximal_antichain\<close> up to its \<^verbatim>\<open>do ... while\<close> loop: the phase, the chains
  and the set \<open>values\<close> with which the loop is entered (nothing when the DVG has no
  edge).\<close>

definition chains_of_dvg ::
  "(nat \<Rightarrow> (int \<times> int) list \<Rightarrow> int \<times> (nat \<Rightarrow> int)) \<Rightarrow> phase \<Rightarrow> chain_t list \<Rightarrow> dvg
    \<Rightarrow> (error + (phase \<times> chain_t list \<times> node list) option) option" where
  "chains_of_dvg hungarian_solve ph chain_heap d =
     (let n = nodeset_count (nodes d) in
      if pset_count (edges d) = 0 then Some (Inr None)
      else
        let idx_map = sort (map int (nodes d)) in
        (case add_bipartite_entries idx_map (edges d) [] of
           Inl e \<Rightarrow> Some (Inl e)
         | Inr bp \<Rightarrow>
             (case build_dvg_pkiller_list ph (nodes d) of
                Inl e \<Rightarrow> Some (Inl e)
              | Inr ph1 \<Rightarrow>
                  (case hungarian_solve n bp of
                     (match_cost, assignment) \<Rightarrow>
                       if \<not> match_cost \<ge> 0 then Some (Inl AssertFail)
                       else
                         (case build_chains assignment (build_assignment_rev assignment n)
                                 idx_map [0..<n] ph1 chain_heap [] 0 of
                            None \<Rightarrow> None
                          | Some (Inl e) \<Rightarrow> Some (Inl e)
                          | Some (Inr r) \<Rightarrow> Some (Inr (Some r)))))))"

subsection \<open>The serialization heuristic\<close>

text \<open>Modelled from the spec: \<^verbatim>\<open>bitset.h\<close> is not among the sources. \<^verbatim>\<open>bitset_set\<close> sets
  one bit, \<^verbatim>\<open>bitset_and\<close> keeps in \<open>a\<close> the bits also set in \<open>b\<close>, and a cleared bitset of
  \<open>n\<close> bits has none set.\<close>

definition bitset_set :: "bitset \<Rightarrow> nat \<Rightarrow> bitset" where
  "bitset_set bs i = bs[i := True]"

definition bitset_and :: "bitset \<Rightarrow> bitset \<Rightarrow> bitset" where
  "bitset_and a b = map2 (\<lambda>x y. x \<and> y) a b"

definition bitset_clear_all :: "nat \<Rightarrow> bitset" where
  "bitset_clear_all n = replicate n False"

text \<open>What the pass takes from outside: the matching, and the heights of the block,
  which depend on the dependency edges inserted so far
  (\<^verbatim>\<open>get_irn_height\<close>, \<^verbatim>\<open>heights_reachable_in_block\<close>, \<^verbatim>\<open>heights_recompute_block\<close>).\<close>

record rss_env =
  solver :: "nat \<Rightarrow> (int \<times> int) list \<Rightarrow> int \<times> (nat \<Rightarrow> int)"
  irn_height :: "rss_edge list \<Rightarrow> node \<Rightarrow> 32 word"
  reachable_in_block :: "rss_edge list \<Rightarrow> node \<Rightarrow> node \<Rightarrow> bool"
  recompute_block :: "rss_edge list \<Rightarrow> node \<Rightarrow> 32 word"

text \<open>\<^verbatim>\<open>serialization_t\<close>, and the variables of
  \<^verbatim>\<open>compute_best_admissible_serialization\<close> that the loops update; the two edges are
  not initialised.\<close>

record serialization =
  edge :: rss_edge
  omega1 :: int
  omega2 :: int

record best =
  best_benefit :: "32 word"
  best_omega2 :: "32 word"
  best_benefit_omega20 :: "32 word"
  has_positive_omega1 :: bool
  min_benefit_edge :: "rss_edge option"
  min_omega20_edge :: "rss_edge option"

text \<open>\<^verbatim>\<open>BLOCK_IDX_MAP\<close>: the position of a node in the index map of the block.\<close>

definition BLOCK_IDX_MAP :: "int list \<Rightarrow> node \<Rightarrow> error + nat" where
  "BLOCK_IDX_MAP idx_map n =
     (case bsearch_for_index (int n) idx_map True of
        Inl e \<Rightarrow> Inl e
      | Inr i \<Rightarrow> Inr (nat i))"

text \<open>\<^verbatim>\<open>for (k = ARR_LEN(arr) - 1; k >= 0; --k) if (! is_Sink(arr[k])) bitset_set(...)\<close>.\<close>

fun set_desc_bits :: "node \<Rightarrow> int list \<Rightarrow> node list \<Rightarrow> bitset \<Rightarrow> error + bitset" where
  "set_desc_bits sink idx_map [] bs = Inr bs"
| "set_desc_bits sink idx_map (d # ds) bs =
     (if d \<noteq> sink then
        (case BLOCK_IDX_MAP idx_map d of
           Inl e \<Rightarrow> Inl e
         | Inr b \<Rightarrow> set_desc_bits sink idx_map ds (bitset_set bs b))
      else set_desc_bits sink idx_map ds bs)"

definition desc_bits :: "node \<Rightarrow> int list \<Rightarrow> node list option \<Rightarrow> bitset \<Rightarrow> error + bitset" where
  "desc_bits sink idx_map arr bs =
     (case arr of
        None \<Rightarrow> Inl NullDeref
      | Some a \<Rightarrow> set_desc_bits sink idx_map (rev a) bs)"

text \<open>``accumulate all descendants of all pkiller(u)''.\<close>

fun accumulate_ukilldesc :: "node \<Rightarrow> int list \<Rightarrow> phase \<Rightarrow> node list \<Rightarrow> bitset
    \<Rightarrow> error + bitset" where
  "accumulate_ukilldesc sink idx_map ph [] bs = Inr bs"
| "accumulate_ukilldesc sink idx_map ph (n # ns) bs =
     (if n \<noteq> sink then
        (case BLOCK_IDX_MAP idx_map n of
           Inl e \<Rightarrow> Inl e
         | Inr b \<Rightarrow>
             (case desc_bits sink idx_map (dvg_desc (ph n)) (bitset_set bs b) of
                Inl e \<Rightarrow> Inl e
              | Inr bs1 \<Rightarrow> accumulate_ukilldesc sink idx_map ph ns bs1))
      else accumulate_ukilldesc sink idx_map ph ns bs)"

text \<open>The body of \<^verbatim>\<open>if (add_edge)\<close> for the edge from \<open>vv_irn\<close> to \<open>v_irn\<close>. The
  arithmetic is that of \<^verbatim>\<open>unsigned\<close>; \<open>num_regs\<close> is an \<^verbatim>\<open>int\<close> converted to it.\<close>

definition consider_edge :: "int \<Rightarrow> 32 word \<Rightarrow> (node \<Rightarrow> 32 word) \<Rightarrow> bitset \<Rightarrow> bitset \<Rightarrow> bitset
    \<Rightarrow> bool \<Rightarrow> node \<Rightarrow> node \<Rightarrow> best \<Rightarrow> error + best" where
  "consider_edge num_regs max_height height bs_sv bs_vdesc bs_ukilldesc is_pkiller
       v_irn vv_irn b =
     (let mu1 = (word_of_nat (bitset_popcnt (bitset_and bs_vdesc bs_sv)) :: 32 word);
          mu2 = (if is_pkiller
                 then word_of_nat (bitset_popcnt (bitset_andnot bs_ukilldesc bs_vdesc))
                 else 0)
      in if \<not> mu1 \<ge> mu2 then Inl AssertFail
         else
           let omega1 = mu1 - mu2;
               b1 = (if omega1 > 0 then b\<lparr>has_positive_omega1 := True\<rparr> else b);
               critical_path_cost = height v_irn + max_height - height vv_irn + 1;
               omega2 = (if critical_path_cost > max_height
                         then critical_path_cost - max_height else 0);
               b2 = (if word_of_int num_regs - omega1 < best_benefit b1
                     then b1\<lparr>min_benefit_edge := Some (vv_irn, v_irn),
                             best_benefit := word_of_int num_regs - omega1\<rparr>
                     else b1);
               b3 = (if omega2 = 0 \<and> word_of_int num_regs - omega1 < best_benefit_omega20 b2
                     then b2\<lparr>min_omega20_edge := Some (vv_irn, v_irn),
                             best_benefit_omega20 := word_of_int num_regs - omega1\<rparr>
                     else b2)
           in Inr (b3\<lparr>best_omega2 := min (best_omega2 b3) omega2\<rparr>))"

text \<open>``for all vv in pkiller(u)'': \<open>k\<close> is the position of \<open>vv_irn\<close> in
  \<^verbatim>\<open>u->dvg_pkiller\<close>, \<open>j\<close> the position of \<open>v_irn\<close> in \<open>val_arr\<close>;
  \<^verbatim>\<open>add_edge = is_pkiller ? k != j : ! heights_reachable_in_block(rss->h, v_irn, vv_irn)\<close>.
  \<open>body\<close> is what is done for an edge that is considered.\<close>

fun for_all_vv :: "node \<Rightarrow> (node \<Rightarrow> node \<Rightarrow> bool) \<Rightarrow> (node \<Rightarrow> 'a \<Rightarrow> error + 'a) \<Rightarrow> bool
    \<Rightarrow> nat \<Rightarrow> node \<Rightarrow> (nat \<times> node) list \<Rightarrow> 'a \<Rightarrow> error + 'a" where
  "for_all_vv sink reachable body is_pkiller j v_irn [] b = Inr b"
| "for_all_vv sink reachable body is_pkiller j v_irn ((k, vv_irn) # rest) b =
     (if vv_irn = sink then for_all_vv sink reachable body is_pkiller j v_irn rest b
      else if (if is_pkiller then k \<noteq> j else \<not> reachable v_irn vv_irn)
      then (case body vv_irn b of
              Inl e \<Rightarrow> Inl e
            | Inr b1 \<Rightarrow> for_all_vv sink reachable body is_pkiller j v_irn rest b1)
      else for_all_vv sink reachable body is_pkiller j v_irn rest b)"

text \<open>For one value \<open>v_irn\<close> at position \<open>j\<close>: ``if v is in pkiller(u)'', computed by
  \<^verbatim>\<open>BSEARCH_IRN_ARR(val_arr[j], u->dvg_pkiller) != NULL\<close>, and then the loop over the
  potential killers from the last to the first. \<open>body\<close> is given \<open>is_pkiller\<close>.\<close>

definition consider_pkillers :: "node \<Rightarrow> (node \<Rightarrow> node \<Rightarrow> bool)
    \<Rightarrow> (bool \<Rightarrow> node \<Rightarrow> 'a \<Rightarrow> error + 'a) \<Rightarrow> nat \<Rightarrow> node \<Rightarrow> node list option \<Rightarrow> 'a
    \<Rightarrow> error + 'a" where
  "consider_pkillers sink reachable body j v_irn u_dvg_pkiller b =
     (case BSEARCH_IRN_ARR v_irn u_dvg_pkiller of
        Inl e \<Rightarrow> Inl e
      | Inr m \<Rightarrow>
          (case u_dvg_pkiller of
             None \<Rightarrow> Inl NullDeref
           | Some arr \<Rightarrow>
               for_all_vv sink reachable (body (m \<noteq> None)) (m \<noteq> None) j v_irn
                 (rev (enumerate 0 arr)) b))"

text \<open>``for all v in sat_vals'', for the value \<open>val_arr[i]\<close> with the \<^verbatim>\<open>rss_irn_t\<close> \<open>u\<close>.\<close>

fun for_all_v :: "node \<Rightarrow> int list \<Rightarrow> int \<Rightarrow> 32 word \<Rightarrow> (node \<Rightarrow> 32 word)
    \<Rightarrow> (node \<Rightarrow> node \<Rightarrow> bool) \<Rightarrow> phase \<Rightarrow> bitset \<Rightarrow> bitset \<Rightarrow> nat \<Rightarrow> rss_irn
    \<Rightarrow> (nat \<times> node) list \<Rightarrow> best \<Rightarrow> error + best" where
  "for_all_v sink idx_map num_regs max_height height reachable ph bs_sv bs_ukilldesc i u [] b =
     Inr b"
| "for_all_v sink idx_map num_regs max_height height reachable ph bs_sv bs_ukilldesc i u
       ((j, v_irn) # rest) b =
     (if i = j
      then for_all_v sink idx_map num_regs max_height height reachable ph bs_sv bs_ukilldesc
             i u rest b
      else
        (case desc_bits sink idx_map (dvg_desc (ph v_irn))
                (bitset_clear_all (length idx_map)) of
           Inl e \<Rightarrow> Inl e
         | Inr bs_vdesc \<Rightarrow>
             (case consider_pkillers sink reachable
                     (\<lambda>is_pkiller. consider_edge num_regs max_height height bs_sv bs_vdesc
                        bs_ukilldesc is_pkiller v_irn)
                     j v_irn (dvg_pkiller u) b of
                Inl e \<Rightarrow> Inl e
              | Inr b1 \<Rightarrow>
                  for_all_v sink idx_map num_regs max_height height reachable ph
                    bs_sv bs_ukilldesc i u rest b1)))"

text \<open>``for all u in sat_vals''.\<close>

fun for_all_u :: "node \<Rightarrow> int list \<Rightarrow> int \<Rightarrow> 32 word \<Rightarrow> (node \<Rightarrow> 32 word)
    \<Rightarrow> (node \<Rightarrow> node \<Rightarrow> bool) \<Rightarrow> phase \<Rightarrow> bitset \<Rightarrow> node list
    \<Rightarrow> (nat \<times> node) list \<Rightarrow> best \<Rightarrow> error + best" where
  "for_all_u sink idx_map num_regs max_height height reachable ph bs_sv val_arr [] b = Inr b"
| "for_all_u sink idx_map num_regs max_height height reachable ph bs_sv val_arr
       ((i, u_irn) # rest) b =
     (case accumulate_ukilldesc sink idx_map ph (dvg_pkiller_list (ph u_irn))
             (bitset_clear_all (length idx_map)) of
        Inl e \<Rightarrow> Inl e
      | Inr bs_ukilldesc \<Rightarrow>
          (case for_all_v sink idx_map num_regs max_height height reachable ph bs_sv
                  bs_ukilldesc i (ph u_irn) (enumerate 0 val_arr) b of
             Inl e \<Rightarrow> Inl e
           | Inr b1 \<Rightarrow>
               for_all_u sink idx_map num_regs max_height height reachable ph bs_sv val_arr
                 rest b1))"

text \<open>The first loop: \<^verbatim>\<open>bitset_set(bs_sv, BLOCK_IDX_MAP(rss, irn))\<close> for every value.\<close>

fun set_sv_bits :: "int list \<Rightarrow> node list \<Rightarrow> bitset \<Rightarrow> error + bitset" where
  "set_sv_bits idx_map [] bs = Inr bs"
| "set_sv_bits idx_map (n # ns) bs =
     (case BLOCK_IDX_MAP idx_map n of
        Inl e \<Rightarrow> Inl e
      | Inr b \<Rightarrow> set_sv_bits idx_map ns (bitset_set bs b))"

text \<open>\<^verbatim>\<open>compute_best_admissible_serialization\<close>: \<open>None\<close> is the \<^verbatim>\<open>NULL\<close> returned when no
  edge with a positive \<open>omega1\<close> was seen.\<close>

definition compute_best_admissible_serialization :: "node \<Rightarrow> int list \<Rightarrow> 32 word
    \<Rightarrow> (node \<Rightarrow> 32 word) \<Rightarrow> (node \<Rightarrow> node \<Rightarrow> bool) \<Rightarrow> phase \<Rightarrow> node list \<Rightarrow> int
    \<Rightarrow> error + serialization option" where
  "compute_best_admissible_serialization sink idx_map max_height height reachable ph
       sat_vals num_regs =
     (case set_sv_bits idx_map sat_vals (bitset_clear_all (length idx_map)) of
        Inl e \<Rightarrow> Inl e
      | Inr bs_sv \<Rightarrow>
          (case for_all_u sink idx_map num_regs max_height height reachable ph bs_sv sat_vals
                  (enumerate 0 sat_vals)
                  \<lparr> best_benefit = - 1, best_omega2 = - 1, best_benefit_omega20 = - 1,
                    has_positive_omega1 = False, min_benefit_edge = None,
                    min_omega20_edge = None \<rparr> of
             Inl e \<Rightarrow> Inl e
           | Inr b \<Rightarrow>
               if \<not> has_positive_omega1 b then Inr None
               else if best_omega2 b = 0 then
                 (case min_omega20_edge b of
                    None \<Rightarrow> Inl Uninitialised
                  | Some e \<Rightarrow>
                      Inr (Some \<lparr> edge = e, omega1 = sint (best_benefit_omega20 b),
                                  omega2 = sint (best_omega2 b) \<rparr>))
               else
                 (case min_benefit_edge b of
                    None \<Rightarrow> Inl Uninitialised
                  | Some e \<Rightarrow>
                      Inr (Some \<lparr> edge = e, omega1 = sint (best_benefit b),
                                  omega2 = sint (best_omega2 b) \<rparr>))))"

text \<open>The \<^verbatim>\<open>while\<close> loop of \<^verbatim>\<open>perform_value_serialization_heuristic\<close>. \<open>deps\<close> are the
  dependency edges of the graph, to which \<^verbatim>\<open>add_irn_dep\<close> adds. The result of
  \<^verbatim>\<open>compute_best_admissible_serialization\<close> is used without a test:
  \<^verbatim>\<open>tgt = get_rss_irn(rss, ser->edge->tgt)\<close>. The loop returns the phase, the chains, the
  dependency edges and \<^verbatim>\<open>rss->max_height\<close>.\<close>

partial_function (option) serialization_loop :: "rss_env \<Rightarrow> node \<Rightarrow> node \<Rightarrow> int list \<Rightarrow> int
    \<Rightarrow> phase \<Rightarrow> chain_t list \<Rightarrow> dvg \<Rightarrow> rss_edge list \<Rightarrow> 32 word \<Rightarrow> node list option
    \<Rightarrow> (error + phase \<times> chain_t list \<times> rss_edge list \<times> 32 word) option" where
  "serialization_loop E sink block idx_map available ph chain_heap d deps max_height sat_vals =
     (case sat_vals of
        None \<Rightarrow> Some (Inr (ph, chain_heap, deps, max_height))
      | Some sv \<Rightarrow>
          if int (nodeset_count sv) > available then
            (case compute_best_admissible_serialization sink idx_map max_height
                    (irn_height E deps) (reachable_in_block E deps) ph sv available of
               Inl e \<Rightarrow> Some (Inl e)
             | Inr None \<Rightarrow> Some (Inl NullDeref)
             | Inr (Some ser) \<Rightarrow>
                 (case compute_maximal_antichain (solver E)
                         (ph(snd (edge ser) := (ph (snd (edge ser)))\<lparr>dvg_user_list :=
                              plist_insert_back (dvg_user_list (ph (snd (edge ser))))
                                (fst (edge ser))\<rparr>))
                         chain_heap
                         (d\<lparr>edges := pset_insert (edges d) (edge ser)\<rparr>) of
                    None \<Rightarrow> None
                  | Some (Inl e) \<Rightarrow> Some (Inl e)
                  | Some (Inr (ph1, chain_heap1, sat_vals1)) \<Rightarrow>
                      serialization_loop E sink block idx_map available ph1 chain_heap1
                        (d\<lparr>edges := pset_insert (edges d) (edge ser)\<rparr>)
                        (deps @ [edge ser])
                        (recompute_block E (deps @ [edge ser]) block) sat_vals1))
          else Some (Inr (ph, chain_heap, deps, max_height)))"

declare serialization_loop.simps [code]

text \<open>\<^verbatim>\<open>perform_value_serialization_heuristic\<close>: the budget, the DVG, the first antichain
  and the loop.\<close>

definition perform_value_serialization_heuristic :: "rss_env \<Rightarrow> node \<Rightarrow> node \<Rightarrow> int list
    \<Rightarrow> bitset \<Rightarrow> bitset \<Rightarrow> node list \<Rightarrow> phase \<Rightarrow> chain_t list \<Rightarrow> rss_edge list \<Rightarrow> 32 word
    \<Rightarrow> (error + phase \<times> chain_t list \<times> rss_edge list \<times> 32 word) option" where
  "perform_value_serialization_heuristic E sink block idx_map arch_nonign_bs abi_ign_bs
       rss_nodes ph chain_heap deps max_height =
     (case compute_dvg ph rss_nodes \<lparr> nodes = [], edges = [] \<rparr> of
        None \<Rightarrow> None
      | Some (Inl e) \<Rightarrow> Some (Inl e)
      | Some (Inr d) \<Rightarrow>
          (case compute_maximal_antichain (solver E) ph chain_heap d of
             None \<Rightarrow> None
           | Some (Inl e) \<Rightarrow> Some (Inl e)
           | Some (Inr (ph1, chain_heap1, sat_vals)) \<Rightarrow>
               serialization_loop E sink block idx_map
                 (available_regs arch_nonign_bs abi_ign_bs) ph1 chain_heap1 d deps
                 max_height sat_vals))"

subsection \<open>The steps of \<^verbatim>\<open>process_block\<close> for one register class\<close>

text \<open>\<^verbatim>\<open>compute_pkill_set\<close>, \<^verbatim>\<open>compute_killing_function\<close> and the \<^verbatim>\<open>compute_dvg\<close> that
  \<^verbatim>\<open>perform_value_serialization_heuristic\<close> starts with, on the node information of the
  block: the phase and the DVG.\<close>

definition block_dvg :: "'f float_ops \<Rightarrow> ('f child list \<Rightarrow> 'f child list) \<Rightarrow> node \<Rightarrow> node list
    \<Rightarrow> phase \<Rightarrow> (error + phase \<times> dvg) option" where
  "block_dvg F qsort sink rss_nodes ph =
     (case compute_pkill_set sink rss_nodes ph of
        Inl e \<Rightarrow> Some (Inl e)
      | Inr ph1 \<Rightarrow>
          (case compute_killing_function F qsort sink rss_nodes ph1 of
             None \<Rightarrow> None
           | Some (Inl e) \<Rightarrow> Some (Inl e)
           | Some (Inr ph2) \<Rightarrow>
               (case compute_dvg ph2 rss_nodes \<lparr> nodes = [], edges = [] \<rparr> of
                  None \<Rightarrow> None
                | Some (Inl e) \<Rightarrow> Some (Inl e)
                | Some (Inr d) \<Rightarrow> Some (Inr (ph2, d)))))"

text \<open>\<^verbatim>\<open>compute_pkill_set\<close> and the \<^verbatim>\<open>compute_bipartite_decomposition\<close> that
  \<^verbatim>\<open>compute_killing_function\<close> starts with: the components.\<close>

definition block_cbcs :: "node \<Rightarrow> node list \<Rightarrow> phase \<Rightarrow> (error + cbc list) option" where
  "block_cbcs sink rss_nodes ph =
     (case compute_pkill_set sink rss_nodes ph of
        Inl e \<Rightarrow> Some (Inl e)
      | Inr ph1 \<Rightarrow>
          (case compute_bipartite_decomposition sink ph1 rss_nodes of
             None \<Rightarrow> None
           | Some (ph2, cbc_set) \<Rightarrow> Some (Inr cbc_set)))"

text \<open>The same steps and the first \<^verbatim>\<open>compute_maximal_antichain\<close>: the DVG and the set
  returned.\<close>

definition block_antichain :: "(nat \<Rightarrow> (int \<times> int) list \<Rightarrow> int \<times> (nat \<Rightarrow> int)) \<Rightarrow> 'f float_ops
    \<Rightarrow> ('f child list \<Rightarrow> 'f child list) \<Rightarrow> node \<Rightarrow> node list \<Rightarrow> phase
    \<Rightarrow> (error + dvg \<times> node list option) option" where
  "block_antichain hungarian_solve F qsort sink rss_nodes ph =
     (case block_dvg F qsort sink rss_nodes ph of
        None \<Rightarrow> None
      | Some (Inl e) \<Rightarrow> Some (Inl e)
      | Some (Inr (ph2, d)) \<Rightarrow>
          (case compute_maximal_antichain hungarian_solve ph2 [] d of
             None \<Rightarrow> None
           | Some (Inl e) \<Rightarrow> Some (Inl e)
           | Some (Inr (ph3, chain_heap, sat_vals)) \<Rightarrow> Some (Inr (d, sat_vals))))"

text \<open>The body of the loop of \<^verbatim>\<open>process_block\<close> over the register classes, once the nodes
  of the class are collected: \<^verbatim>\<open>compute_pkill_set\<close>, \<^verbatim>\<open>compute_killing_function\<close>,
  \<^verbatim>\<open>perform_value_serialization_heuristic\<close>.\<close>

definition process_class :: "rss_env \<Rightarrow> 'f float_ops \<Rightarrow> ('f child list \<Rightarrow> 'f child list) \<Rightarrow> node
    \<Rightarrow> node \<Rightarrow> int list \<Rightarrow> bitset \<Rightarrow> bitset \<Rightarrow> node list \<Rightarrow> phase \<Rightarrow> chain_t list
    \<Rightarrow> rss_edge list \<Rightarrow> 32 word
    \<Rightarrow> (error + phase \<times> chain_t list \<times> rss_edge list \<times> 32 word) option" where
  "process_class E F qsort sink block idx_map arch_nonign_bs abi_ign_bs rss_nodes ph chain_heap
       deps max_height =
     (case compute_pkill_set sink rss_nodes ph of
        Inl e \<Rightarrow> Some (Inl e)
      | Inr ph1 \<Rightarrow>
          (case compute_killing_function F qsort sink rss_nodes ph1 of
             None \<Rightarrow> None
           | Some (Inl e) \<Rightarrow> Some (Inl e)
           | Some (Inr ph2) \<Rightarrow>
               perform_value_serialization_heuristic E sink block idx_map arch_nonign_bs
                 abi_ign_bs rss_nodes ph2 chain_heap deps max_height))"

subsection \<open>The driver\<close>

text \<open>The loop of \<^verbatim>\<open>process_block\<close> over the nodes of the block for one register class:
  ``collect all nodes having a certain register class'' and their node information.\<close>

fun collect_class_nodes :: "nat \<Rightarrow> ir_graph \<Rightarrow> node \<Rightarrow> node \<Rightarrow> nat \<Rightarrow> node list \<Rightarrow> node list
    \<Rightarrow> phase \<Rightarrow> (error + node list \<times> phase) option" where
  "collect_class_nodes fuel G sink block cls [] rss_nodes ph = Some (Inr (rss_nodes, ph))"
| "collect_class_nodes fuel G sink block cls (n # ns) rss_nodes ph =
     (if irn_mode G n = mode_T then collect_class_nodes fuel G sink block cls ns rss_nodes ph
      else if \<not> is_ignore G n \<and> irn_reg_class G n = Some cls then
        (case collect_node_info fuel G sink block ph n of
           None \<Rightarrow> None
         | Some (Inl e) \<Rightarrow> Some (Inl e)
         | Some (Inr ph1) \<Rightarrow>
             collect_class_nodes fuel G sink block cls ns (plist_insert_back rss_nodes n) ph1)
      else collect_class_nodes fuel G sink block cls ns rss_nodes ph)"





text \<open>The body of the loop of \<^verbatim>\<open>process_block\<close> over the register classes up to
  \<^verbatim>\<open>compute_pkill_set\<close>: the nodes of the class with their node information, and the
  potential killers.\<close>

definition class_pkill_set :: "nat \<Rightarrow> ir_graph \<Rightarrow> node \<Rightarrow> node \<Rightarrow> nat \<Rightarrow> phase
    \<Rightarrow> (error + node list \<times> phase) option" where
  "class_pkill_set fuel G sink block cls ph =
     (case collect_class_nodes fuel G sink block cls (out_edges G block)
             (plist_insert_back [] sink) ph of
        None \<Rightarrow> None
      | Some (Inl e) \<Rightarrow> Some (Inl e)
      | Some (Inr (rss_nodes, ph1)) \<Rightarrow>
          (case compute_pkill_set sink rss_nodes ph1 of
             Inl e \<Rightarrow> Some (Inl e)
           | Inr ph2 \<Rightarrow> Some (Inr (rss_nodes, ph2))))"


subsection \<open>Properties of the analysis state\<close>

text \<open>The node information as \<^verbatim>\<open>collect_node_info\<close> leaves it: a node is either
  untouched (empty lists) or its sorted arrays hold the sorted lists.\<close>

definition node_info_ok :: "phase \<Rightarrow> bool" where
  "node_info_ok ph =
     (\<forall>n. (descendant_list (ph n) = [] \<or>
            descendants (ph n) = Some (build_sorted_array_from_list (descendant_list (ph n)))) \<and>
          (consumer_list (ph n) = [] \<or>
            consumer (ph n) = Some (build_sorted_array_from_list (consumer_list (ph n)))))"

text \<open>The data flow inside a block has no cycle: no node is its own descendant.\<close>

definition block_acyclic :: "phase \<Rightarrow> bool" where
  "block_acyclic ph = (\<forall>n. n \<notin> set (descendant_list (ph n)))"

text \<open>The test that \<^verbatim>\<open>is_potential_killer\<close> computes on well-formed node information:
  no descendant of \<open>v\<close> is a consumer of \<open>u\<close>.\<close>

definition PK0 :: "phase \<Rightarrow> node \<Rightarrow> node \<Rightarrow> bool" where
  "PK0 ph v u = (set (descendant_list (ph v)) \<inter> set (consumer_list (ph u)) = {})"

text \<open>Two phases with the same node information and parent lists.\<close>

definition info_eq :: "phase \<Rightarrow> phase \<Rightarrow> bool" where
  "info_eq ph ph' = (\<forall>n. descendant_list (ph' n) = descendant_list (ph n) \<and>
      descendants (ph' n) = descendants (ph n) \<and>
      consumer_list (ph' n) = consumer_list (ph n) \<and>
      consumer (ph' n) = consumer (ph n) \<and>
      parent_list (ph' n) = parent_list (ph n))"

text \<open>Invariants of the killing function: every parent recorded at a node has that node
  among its potential killers; every node of a set has the sink or one of its potential
  killers as killer; every edge of a list leads to a potential killer of its source.\<close>

definition parents_are_killed :: "phase \<Rightarrow> bool" where
  "parents_are_killed ph =
     (\<forall>t p. p \<in> set (parent_list (ph t)) \<longrightarrow> t \<in> set (pkiller_list (ph p)))"

definition killer_ok :: "node \<Rightarrow> node set \<Rightarrow> phase \<Rightarrow> bool" where
  "killer_ok sink N ph = (\<forall>u \<in> N. killer (ph u) = Some sink \<or>
       (\<exists>v \<in> set (pkiller_list (ph u)). killer (ph u) = Some v))"

definition edges_are_pkills :: "phase \<Rightarrow> rss_edge list \<Rightarrow> bool" where
  "edges_are_pkills ph es = (\<forall>e \<in> set es. snd e \<in> set (pkiller_list (ph (fst e))))"

text \<open>Two phases with the same potential killers; with the same potential killers, parent
  lists and killers.\<close>

definition pk_same :: "phase \<Rightarrow> phase \<Rightarrow> bool" where
  "pk_same ph ph' = (\<forall>n. pkiller_list (ph' n) = pkiller_list (ph n))"

definition kill_eq :: "phase \<Rightarrow> phase \<Rightarrow> bool" where
  "kill_eq ph ph' = (\<forall>n. pkiller_list (ph' n) = pkiller_list (ph n) \<and>
      parent_list (ph' n) = parent_list (ph n) \<and> killer (ph' n) = killer (ph n))"

text \<open>The values of a set lie in chains: every value points to a chain that holds it, and
  so do the elements that stand before it in that chain. The same with the values at
  positions below \<open>k\<close>.\<close>

definition values_in_chains :: "phase \<Rightarrow> chain_t list \<Rightarrow> node list \<Rightarrow> bool" where
  "values_in_chains ph chain_heap values =
     (\<forall>v \<in> set values. \<exists>c el. chain_ptr (ph v) = Some c \<and> c < length chain_heap \<and>
          plist_find_value (elements (chain_heap ! c)) v = Some el \<and>
          (\<forall>i < el. chain_ptr (ph (elements (chain_heap ! c) ! i)) = Some c))"

definition chain_pos_below :: "phase \<Rightarrow> chain_t list \<Rightarrow> nat \<Rightarrow> node list \<Rightarrow> bool" where
  "chain_pos_below ph chain_heap k values =
     (\<forall>v \<in> set values. \<exists>c el. chain_ptr (ph v) = Some c \<and> c < length chain_heap \<and>
          plist_find_value (elements (chain_heap ! c)) v = Some el \<and> el < k \<and>
          (\<forall>i < el. chain_ptr (ph (elements (chain_heap ! c) ! i)) = Some c))"

text \<open>What following a chain \<open>c\<close> changes: the chain \<open>c\<close> grows at its end, and only nodes
  that the assignment gives as a target get another chain.\<close>

definition chain_frame :: "nat \<Rightarrow> (nat \<Rightarrow> int) \<Rightarrow> int list \<Rightarrow> nat \<Rightarrow> phase \<Rightarrow> chain_t list
    \<Rightarrow> phase \<Rightarrow> chain_t list \<Rightarrow> bool" where
  "chain_frame n assignment idx_map c ph chain_heap ph' chain_heap' =
     (length chain_heap' = length chain_heap \<and>
      (\<forall>c'. c' \<noteq> c \<longrightarrow> chain_heap' ! c' = chain_heap ! c') \<and>
      (\<exists>ys. elements (chain_heap' ! c) = elements (chain_heap ! c) @ ys) \<and>
      (\<forall>v. chain_ptr (ph' v) \<noteq> chain_ptr (ph v) \<longrightarrow>
           (\<exists>s < n. assignment s \<ge> 0 \<and> nat (assignment s) < length idx_map \<and>
                v = nat (idx_map ! nat (assignment s)))))"

text \<open>The values are heads of chains: none is a target of the assignment, and each is the
  first element of the chain it points to.\<close>

definition chain_heads :: "(nat \<Rightarrow> int) \<Rightarrow> int list \<Rightarrow> phase \<Rightarrow> chain_t list \<Rightarrow> node list
    \<Rightarrow> bool" where
  "chain_heads assignment_rev idx_map ph chain_heap values =
     (\<forall>v \<in> set values.
        (\<exists>j < length idx_map. v = nat (idx_map ! j) \<and> assignment_rev j = - 1) \<and>
        (\<exists>c. chain_ptr (ph v) = Some c \<and> c < length chain_heap \<and>
             (\<exists>ys. elements (chain_heap ! c) = v # ys)))"

text \<open>Doing \<open>body\<close> for each node of a list in turn, up to the first failure.\<close>

fun consider_all :: "(node \<Rightarrow> 'a \<Rightarrow> error + 'a) \<Rightarrow> node list \<Rightarrow> 'a \<Rightarrow> error + 'a" where
  "consider_all body [] b = Inr b"
| "consider_all body (vv # vvs) b =
     (case body vv b of
        Inl e \<Rightarrow> Inl e
      | Inr b1 \<Rightarrow> consider_all body vvs b1)"


text \<open>The bipartite property of a component: no node is both parent and child, and
  every kill edge leads from a parent to a child.\<close>

definition cbc_bipartite :: "cbc \<Rightarrow> bool" where
  "cbc_bipartite c =
     (set (cbc_parents c) \<inter> set (cbc_children c) = {} \<and>
      (\<forall>e \<in> set (kill_edges c). fst e \<in> set (cbc_parents c) \<and> snd e \<in> set (cbc_children c)))"

text \<open>A set \<open>x\<close> of parents holds one that is the source of no kill edge of the
  component.\<close>

definition uncovered :: "cbc \<Rightarrow> node list \<Rightarrow> bool" where
  "uncovered c x = (\<exists>p \<in> set x. \<forall>e \<in> set (kill_edges c). fst e \<noteq> p)"

subsection \<open>Example blocks\<close>

text \<open>The node information of a block with the values \<open>1\<close> and \<open>2\<close>, where \<open>2\<close> uses \<open>1\<close>
  twice and is used outside the block; the sink is node \<open>7\<close>.\<close>

definition straight_line :: phase where
  "straight_line = (\<lambda>n. init_rss_irn)
     (1 := init_rss_irn\<lparr>consumer_list := [2, 2], consumer := Some [2, 2],
            descendant_list := [2, 7], descendants := Some [2, 7], handled := True\<rparr>,
      2 := init_rss_irn\<lparr>consumer_list := [7], consumer := Some [7],
            descendant_list := [7], descendants := Some [7], live_out := True,
            handled := True\<rparr>)"

text \<open>Costs computed exactly, as rational numbers, and a stable sort by cost: one
  possible behaviour of the \<^verbatim>\<open>float\<close> operations and of \<^verbatim>\<open>qsort\<close>.\<close>

definition exact_ops :: "rat float_ops" where
  "exact_ops = \<lparr> float_of = of_int, float_div = (\<lambda>a b. a / b), float_gt = (\<lambda>a b. a > b) \<rparr>"

definition sort_by_cost :: "rat child list \<Rightarrow> rat child list" where
  "sort_by_cost sks = sort_key cost sks"

text \<open>The second scenario of the specification: two independent loads \<open>1\<close> and \<open>2\<close>, their
  sum \<open>3\<close>, which is used outside the block; the sink is node \<open>7\<close>.\<close>

definition two_loads :: phase where
  "two_loads = (\<lambda>n. init_rss_irn)
     (1 := init_rss_irn\<lparr>consumer_list := [3], consumer := Some [3],
            descendant_list := [3, 7], descendants := Some [3, 7], handled := True\<rparr>,
      2 := init_rss_irn\<lparr>consumer_list := [3], consumer := Some [3],
            descendant_list := [3, 7], descendants := Some [3, 7], handled := True\<rparr>,
      3 := init_rss_irn\<lparr>consumer_list := [7], consumer := Some [7],
            descendant_list := [7], descendants := Some [7], live_out := True,
            handled := True\<rparr>)"

text \<open>A maximum matching of the DVG of that block, over the sorted indices
  \<open>[1, 2, 3, 7]\<close>: node \<open>1\<close> is matched to \<open>3\<close> and \<open>3\<close> to the sink.\<close>

definition two_loads_matching :: "nat \<Rightarrow> (int \<times> int) list \<Rightarrow> int \<times> (nat \<Rightarrow> int)" where
  "two_loads_matching n bp = (2, (\<lambda>i. - 1)(0 := 2, 2 := 3))"

text \<open>A block with the values \<open>1\<close>, \<open>2\<close>, \<open>3\<close> and the operations \<open>4 = op(1, 2)\<close>,
  \<open>5 = op(2, 3)\<close>, \<open>6 = op(3, 4)\<close>; \<open>5\<close> and \<open>6\<close> are used outside the block. The lists
  are in the order in which \<^verbatim>\<open>collect_consumer\<close> and \<^verbatim>\<open>collect_descendants\<close> meet the
  nodes.\<close>

definition crossed_uses :: phase where
  "crossed_uses = (\<lambda>n. init_rss_irn)
     (1 := init_rss_irn\<lparr>consumer_list := [4], consumer := Some [4],
            descendant_list := [4, 6, 7], descendants := Some [4, 6, 7], handled := True\<rparr>,
      2 := init_rss_irn\<lparr>consumer_list := [4, 5], consumer := Some [4, 5],
            descendant_list := [4, 6, 7, 5], descendants := Some [4, 5, 6, 7],
            handled := True\<rparr>,
      3 := init_rss_irn\<lparr>consumer_list := [5, 6], consumer := Some [5, 6],
            descendant_list := [5, 7, 6], descendants := Some [5, 6, 7], handled := True\<rparr>,
      4 := init_rss_irn\<lparr>consumer_list := [6], consumer := Some [6],
            descendant_list := [6, 7], descendants := Some [6, 7], handled := True\<rparr>,
      5 := init_rss_irn\<lparr>consumer_list := [7], consumer := Some [7],
            descendant_list := [7], descendants := Some [7], live_out := True,
            handled := True\<rparr>,
      6 := init_rss_irn\<lparr>consumer_list := [7], consumer := Some [7],
            descendant_list := [7], descendants := Some [7], live_out := True,
            handled := True\<rparr>)"

text \<open>An environment for the block \<open>straight_line\<close>: the maximum matching of its DVG over
  the sorted indices \<open>[1, 2, 7]\<close> (\<open>1\<close> to \<open>2\<close>, \<open>2\<close> to the sink), and heights in which
  every node has height \<open>0\<close> and nothing is reachable.\<close>

definition straight_line_env :: rss_env where
  "straight_line_env = \<lparr> solver = (\<lambda>n bp. (2, (\<lambda>i. - 1)(0 := 1, 1 := 2))),
     irn_height = (\<lambda>deps n. 0), reachable_in_block = (\<lambda>deps a b. False),
     recompute_block = (\<lambda>deps block. 0) \<rparr>"



text \<open>A block with two register classes: the start block \<open>10\<close> holds \<open>1\<close>, of class \<open>1\<close>,
  \<open>2 = op(1)\<close>, of class \<open>0\<close>, the store \<open>3 = op(1, 2)\<close>, which has no register class, and
  the jump \<open>4\<close> to block \<open>11\<close>; \<open>3\<close> is used by the return \<open>20\<close> of block \<open>11\<close>. The next free
  node index is \<open>21\<close>.\<close>

definition mixed_classes_graph :: ir_graph where
  "mixed_classes_graph = \<lparr>
     out_edges = (\<lambda>n. [])(10 := [1, 2, 3, 4], 1 := [2, 3], 2 := [3], 3 := [20], 4 := [11],
                         11 := [20]),
     nodes_block = (\<lambda>n. 11)(1 := 10, 2 := 10, 3 := 10, 4 := 10),
     irn_mode = (\<lambda>n. mode_data)(4 := mode_X, 20 := mode_X),
     is_ignore = (\<lambda>n. False),
     irn_reg_class = (\<lambda>n. None)(1 := Some 1, 2 := Some 0),
     n_reg_class = 2,
     non_ignore_regs = (\<lambda>cls. [True]),
     abi_ignore_regs = (\<lambda>cls. [False]),
     blocks = [10, 11],
     start_block = 10,
     last_idx = 21,
     dep_edges = [] \<rparr>"

section \<open>Properties\<close>

subsection \<open>The binary search and the potential killers\<close>

lemma bsearch_sound:
  "bsearch key arr base num = Some m \<Longrightarrow> base + num \<le> length arr \<Longrightarrow> base \<le> m \<and> m < base + num \<and> arr ! m = key"
proof (induction key arr base num rule: bsearch.induct)
  case (1 key arr base num)
  show ?case
  proof (cases "num = 0")
    case True
    with "1.prems" show ?thesis by (simp add: bsearch.simps)
  next
    case False
    let ?mid = "base + num div 2"
    show ?thesis
    proof (cases "key = arr ! ?mid")
      case True
      have "bsearch key arr base num = Some ?mid"
        by (subst bsearch.simps) (simp add: False True Let_def)
      with "1.prems" True False show ?thesis by auto
    next
      case ne: False
      show ?thesis
      proof (cases "key < arr ! ?mid")
        case True
        with False ne "1.prems" have "bsearch key arr base (num div 2) = Some m"
          by (simp add: bsearch.simps[of key arr base num] Let_def)
        moreover have "num div 2 \<le> num" by simp
        ultimately show ?thesis using "1.IH"(1)[OF False refl ne True] "1.prems" by fastforce
      next
        case gt: False
        with False ne "1.prems" have "bsearch key arr (?mid + 1) (num - num div 2 - 1) = Some m"
          by (simp add: bsearch.simps[of key arr base num] Let_def)
        from "1.IH"(2)[OF False refl ne gt this] "1.prems" False show ?thesis by auto
      qed
    qed
  qed
qed

lemma bsearch_complete:
  "sorted arr \<Longrightarrow> base + num \<le> length arr \<Longrightarrow> bsearch key arr base num = None
     \<Longrightarrow> i < base + num \<Longrightarrow> base \<le> i \<Longrightarrow> arr ! i \<noteq> key"
proof (induction key arr base num arbitrary: i rule: bsearch.induct)
  case (1 key arr base num)
  from "1.prems" have nz: "num \<noteq> 0" by auto
  let ?mid = "base + num div 2"
  have midlt: "?mid < length arr" using "1.prems" nz by auto
  from "1.prems"(3) nz have ne: "key \<noteq> arr ! ?mid"
    by (auto simp: bsearch.simps[of key arr base num] Let_def split: if_splits)
  show ?case
  proof (cases "key < arr ! ?mid")
    case True
    with nz ne "1.prems" have r: "bsearch key arr base (num div 2) = None"
      by (simp add: bsearch.simps[of key arr base num] Let_def)
    show ?thesis
    proof (cases "i < ?mid")
      case True
      from "1.IH"(1)[OF nz refl ne \<open>key < arr ! ?mid\<close> "1.prems"(1) _ r True "1.prems"(5)] "1.prems"
      show ?thesis by auto
    next
      case False
      then have "arr ! ?mid \<le> arr ! i" using "1.prems" sorted_nth_mono[of arr ?mid i] by auto
      with True show ?thesis by auto
    qed
  next
    case gt: False
    with nz ne "1.prems" have r: "bsearch key arr (?mid + 1) (num - num div 2 - 1) = None"
      by (simp add: bsearch.simps[of key arr base num] Let_def)
    show ?thesis
    proof (cases "?mid < i")
      case True
      have "?mid + 1 + (num - num div 2 - 1) \<le> length arr" using "1.prems" nz by auto
      from "1.IH"(2)[OF nz refl ne gt "1.prems"(1) this r, of i] True "1.prems" nz
      show ?thesis by auto
    next
      case False
      then have "arr ! i \<le> arr ! ?mid" using midlt sorted_nth_mono[of arr i ?mid] "1.prems" by auto
      with gt ne show ?thesis by auto
    qed
  qed
qed

lemma bsearch_mem:
  assumes "sorted arr"
  shows "(bsearch key arr 0 (length arr) = None) = (key \<notin> set arr)"
proof
  assume n: "bsearch key arr 0 (length arr) = None"
  show "key \<notin> set arr"
  proof
    assume "key \<in> set arr"
    then obtain i where "i < length arr" "arr ! i = key" by (auto simp: in_set_conv_nth)
    with bsearch_complete[OF assms _ n, of i] show False by simp
  qed
next
  assume nin: "key \<notin> set arr"
  show "bsearch key arr 0 (length arr) = None"
  proof (cases "bsearch key arr 0 (length arr)")
    case None then show ?thesis .
  next
    case (Some m)
    from bsearch_sound[OF Some] have "m < length arr" "arr ! m = key" by auto
    with nin show ?thesis by auto
  qed
qed

lemma pk_scan_sorted:
  "sorted arr \<Longrightarrow> pk_scan list (Some arr) = Inr (set list \<inter> set arr = {})"
proof (induction list)
  case Nil then show ?case by simp
next
  case (Cons irn list)
  show ?case
  proof (cases "bsearch irn arr 0 (length arr)")
    case None
    with Cons bsearch_mem[OF Cons.prems, of irn] show ?thesis
      by (simp add: BSEARCH_IRN_ARR_def)
  next
    case (Some m)
    with bsearch_mem[OF Cons.prems, of irn] have "irn \<in> set arr" by auto
    with Some show ?thesis by (auto simp: BSEARCH_IRN_ARR_def)
  qed
qed

lemma is_potential_killer_ok:
  assumes "node_info_ok ph"
  shows "is_potential_killer (ph v) (ph u) =
           Inr (set (descendant_list (ph v)) \<inter> set (consumer_list (ph u)) = {})"
proof (cases "plist_count (descendant_list (ph v)) > plist_count (consumer_list (ph u))")
  case True
  then have "descendant_list (ph v) \<noteq> []" by (auto simp: plist_count_def)
  with assms have d: "descendants (ph v) = Some (sort (descendant_list (ph v)))"
    by (auto simp: node_info_ok_def build_sorted_array_from_list_def)
  show ?thesis using True pk_scan_sorted[of "sort (descendant_list (ph v))" "consumer_list (ph u)"]
    by (auto simp: is_potential_killer_def d)
next
  case False
  show ?thesis
  proof (cases "descendant_list (ph v) = []")
    case True
    with False show ?thesis by (simp add: is_potential_killer_def)
  next
    case ne: False
    with False have "consumer_list (ph u) \<noteq> []" by (auto simp: plist_count_def)
    with assms have c: "consumer (ph u) = Some (sort (consumer_list (ph u)))"
      by (auto simp: node_info_ok_def build_sorted_array_from_list_def)
    show ?thesis using False pk_scan_sorted[of "sort (consumer_list (ph u))" "descendant_list (ph v)"]
      by (auto simp: is_potential_killer_def c)
  qed
qed


lemma info_eq_refl: "info_eq ph ph" by (simp add: info_eq_def)

lemma info_eq_trans: "info_eq a b \<Longrightarrow> info_eq b c \<Longrightarrow> info_eq a c"
  by (simp add: info_eq_def)

lemma record_pkiller_info: "info_eq ph (record_pkiller u v ph)"
  by (simp add: info_eq_def record_pkiller_def Let_def)

lemma record_pkiller_pk:
  "set (pkiller_list (record_pkiller u v ph n)) =
     set (pkiller_list (ph n)) \<union> (if n = u then {v} else {})"
  by (auto simp: record_pkiller_def Let_def plist_has_value_def plist_insert_back_def)

lemma record_pkiller_kv:
  "set (kill_value_list (record_pkiller u v ph n)) =
     set (kill_value_list (ph n)) \<union> (if n = v then {u} else {})"
  by (auto simp: record_pkiller_def Let_def plist_has_value_def plist_insert_back_def)

lemma record_pkiller_killer: "killer (record_pkiller u v ph n) = killer (ph n)"
  by (simp add: record_pkiller_def Let_def)


lemma node_info_ok_eq: "info_eq ph0 ph \<Longrightarrow> node_info_ok ph0 \<Longrightarrow> node_info_ok ph"
  by (simp add: info_eq_def node_info_ok_def)

lemma is_pk_eq:
  assumes "node_info_ok ph0" "info_eq ph0 ph"
  shows "is_potential_killer (ph v) (ph u) = Inr (PK0 ph0 v u)"
proof -
  from assms have "node_info_ok ph" by (rule node_info_ok_eq[rotated])
  from is_potential_killer_ok[OF this, of v u] assms(2) show ?thesis
    by (simp add: PK0_def info_eq_def)
qed

lemma pkill_consumers_ok:
  assumes "node_info_ok ph0" "info_eq ph0 ph"
  shows "\<exists>ph'. pkill_consumers u vs ph = Inr ph' \<and> info_eq ph0 ph' \<and>
     (\<forall>n. set (pkiller_list (ph' n)) =
           set (pkiller_list (ph n)) \<union> (if n = u then {v \<in> set vs. PK0 ph0 v u} else {})) \<and>
     (\<forall>n. set (kill_value_list (ph' n)) =
           set (kill_value_list (ph n)) \<union> (if n \<in> set vs \<and> PK0 ph0 n u then {u} else {})) \<and>
     (\<forall>n. killer (ph' n) = killer (ph n))"
  using assms(2)
proof (induction vs arbitrary: ph)
  case Nil
  then show ?case by simp
next
  case (Cons v vs)
  have ipk: "is_potential_killer (ph v) (ph u) = Inr (PK0 ph0 v u)"
    by (rule is_pk_eq[OF assms(1) Cons.prems])
  show ?case
  proof (cases "PK0 ph0 v u")
    case True
    let ?ph1 = "record_pkiller u v ph"
    have e1: "info_eq ph0 ?ph1"
      by (rule info_eq_trans[OF Cons.prems record_pkiller_info])
    from Cons.IH[OF e1] obtain ph' where
      r: "pkill_consumers u vs ?ph1 = Inr ph'" and i: "info_eq ph0 ph'"
      and p: "\<forall>n. set (pkiller_list (ph' n)) =
           set (pkiller_list (?ph1 n)) \<union> (if n = u then {v \<in> set vs. PK0 ph0 v u} else {})"
      and k: "\<forall>n. set (kill_value_list (ph' n)) =
           set (kill_value_list (?ph1 n)) \<union> (if n \<in> set vs \<and> PK0 ph0 n u then {u} else {})"
      and kl: "\<forall>n. killer (ph' n) = killer (?ph1 n)" by blast
    have "pkill_consumers u (v # vs) ph = Inr ph'" using ipk True r by simp
    moreover have "\<forall>n. set (pkiller_list (ph' n)) =
           set (pkiller_list (ph n)) \<union> (if n = u then {w \<in> set (v # vs). PK0 ph0 w u} else {})"
      using p True by (auto simp: record_pkiller_pk)
    moreover have "\<forall>n. set (kill_value_list (ph' n)) =
           set (kill_value_list (ph n)) \<union> (if n \<in> set (v # vs) \<and> PK0 ph0 n u then {u} else {})"
      using k True by (auto simp: record_pkiller_kv)
    moreover have "\<forall>n. killer (ph' n) = killer (ph n)"
      using kl by (simp add: record_pkiller_killer)
    ultimately show ?thesis using i by blast
  next
    case False
    from Cons.IH[OF Cons.prems] obtain ph' where
      r: "pkill_consumers u vs ph = Inr ph'" and i: "info_eq ph0 ph'"
      and p: "\<forall>n. set (pkiller_list (ph' n)) =
           set (pkiller_list (ph n)) \<union> (if n = u then {v \<in> set vs. PK0 ph0 v u} else {})"
      and k: "\<forall>n. set (kill_value_list (ph' n)) =
           set (kill_value_list (ph n)) \<union> (if n \<in> set vs \<and> PK0 ph0 n u then {u} else {})"
      and kl: "\<forall>n. killer (ph' n) = killer (ph n)" by blast
    have "pkill_consumers u (v # vs) ph = Inr ph'" using ipk False r by simp
    moreover have "\<forall>n. set (pkiller_list (ph' n)) =
           set (pkiller_list (ph n)) \<union> (if n = u then {w \<in> set (v # vs). PK0 ph0 w u} else {})"
      using p False by auto
    moreover have "\<forall>n. set (kill_value_list (ph' n)) =
           set (kill_value_list (ph n)) \<union> (if n \<in> set (v # vs) \<and> PK0 ph0 n u then {u} else {})"
      using k False by auto
    ultimately show ?thesis using i kl by blast
  qed
qed

lemma compute_pkill_set_ok:
  assumes "node_info_ok ph0" "info_eq ph0 ph"
  shows "\<exists>ph'. compute_pkill_set sink us ph = Inr ph' \<and> info_eq ph0 ph' \<and>
     (\<forall>n. set (pkiller_list (ph' n)) = set (pkiller_list (ph n)) \<union>
           (if n \<in> set us then {v \<in> set (consumer_list (ph0 n)). PK0 ph0 v n} else {})) \<and>
     (\<forall>n. set (kill_value_list (ph' n)) = set (kill_value_list (ph n)) \<union>
           {u \<in> set us. n \<in> set (consumer_list (ph0 u)) \<and> PK0 ph0 n u}) \<and>
     (\<forall>n. killer (ph' n) = (if n \<in> set us then Some sink else killer (ph n)))"
  using assms(2)
proof (induction us arbitrary: ph)
  case Nil
  then show ?case by simp
next
  case (Cons u us)
  have cl: "consumer_list (ph u) = consumer_list (ph0 u)"
    using Cons.prems by (simp add: info_eq_def)
  from pkill_consumers_ok[OF assms(1) Cons.prems, of u "consumer_list (ph0 u)"]
  obtain ph1 where
      r1: "pkill_consumers u (consumer_list (ph0 u)) ph = Inr ph1" and i1: "info_eq ph0 ph1"
      and p1: "\<forall>n. set (pkiller_list (ph1 n)) = set (pkiller_list (ph n)) \<union>
            (if n = u then {v \<in> set (consumer_list (ph0 u)). PK0 ph0 v u} else {})"
      and k1: "\<forall>n. set (kill_value_list (ph1 n)) = set (kill_value_list (ph n)) \<union>
            (if n \<in> set (consumer_list (ph0 u)) \<and> PK0 ph0 n u then {u} else {})"
      and kl1: "\<forall>n. killer (ph1 n) = killer (ph n)" by blast
  let ?ph2 = "ph1(u := (ph1 u)\<lparr>killer := Some sink\<rparr>)"
  have i2: "info_eq ph0 ?ph2" using i1 by (simp add: info_eq_def)
  from Cons.IH[OF i2] obtain ph' where
      r: "compute_pkill_set sink us ?ph2 = Inr ph'" and i: "info_eq ph0 ph'"
      and p: "\<forall>n. set (pkiller_list (ph' n)) = set (pkiller_list (?ph2 n)) \<union>
           (if n \<in> set us then {v \<in> set (consumer_list (ph0 n)). PK0 ph0 v n} else {})"
      and k: "\<forall>n. set (kill_value_list (ph' n)) = set (kill_value_list (?ph2 n)) \<union>
           {w \<in> set us. n \<in> set (consumer_list (ph0 w)) \<and> PK0 ph0 n w}"
      and kl: "\<forall>n. killer (ph' n) = (if n \<in> set us then Some sink else killer (?ph2 n))"
    by blast
  have "compute_pkill_set sink (u # us) ph = Inr ph'" using r1 r cl by simp
  moreover have "\<forall>n. set (pkiller_list (ph' n)) = set (pkiller_list (ph n)) \<union>
           (if n \<in> set (u # us) then {v \<in> set (consumer_list (ph0 n)). PK0 ph0 v n} else {})"
  proof
    fix n
    have "set (pkiller_list (?ph2 n)) = set (pkiller_list (ph1 n))" by simp
    with p p1 show "set (pkiller_list (ph' n)) = set (pkiller_list (ph n)) \<union>
           (if n \<in> set (u # us) then {v \<in> set (consumer_list (ph0 n)). PK0 ph0 v n} else {})"
      by auto
  qed
  moreover have "\<forall>n. set (kill_value_list (ph' n)) = set (kill_value_list (ph n)) \<union>
           {w \<in> set (u # us). n \<in> set (consumer_list (ph0 w)) \<and> PK0 ph0 n w}"
  proof
    fix n
    have "set (kill_value_list (?ph2 n)) = set (kill_value_list (ph1 n))" by simp
    with k k1 show "set (kill_value_list (ph' n)) = set (kill_value_list (ph n)) \<union>
           {w \<in> set (u # us). n \<in> set (consumer_list (ph0 w)) \<and> PK0 ph0 n w}"
      by auto
  qed
  moreover have "\<forall>n. killer (ph' n) = (if n \<in> set (u # us) then Some sink else killer (ph n))"
    using kl kl1 by auto
  ultimately show ?case using i by blast
qed

text \<open>
  On well-formed node information of an acyclic block, in which the nodes of the list have
  no potential killer recorded yet, \<^verbatim>\<open>compute_pkill_set\<close> returns, and for every node \<open>u\<close>
  of the list, \<open>v\<close> is recorded in \<open>pkillers(u)\<close> exactly when \<open>v\<close> is a consumer of \<open>u\<close>
  and the descendant list recorded for \<open>v\<close> meets \<open>consumers(u)\<close> in \<open>v\<close> at most; and then
  \<open>u\<close> is in \<open>kill_values(v)\<close>. The descendant list recorded for a node is empty as long
  as \<^verbatim>\<open>collect_node_info\<close> has not been called for it.
\<close>

lemma pkill_set_characterisation:
  assumes ok: "node_info_ok ph" and ac: "block_acyclic ph"
    and fresh: "\<forall>u \<in> set rss_nodes. pkiller_list (ph u) = []"
  shows "\<exists>ph'. compute_pkill_set sink rss_nodes ph = Inr ph' \<and>
     (\<forall>u \<in> set rss_nodes. \<forall>v.
        (v \<in> set (pkiller_list (ph' u)) \<longleftrightarrow>
           v \<in> set (consumer_list (ph' u)) \<and>
           set (descendant_list (ph' v)) \<inter> set (consumer_list (ph' u)) \<subseteq> {v}) \<and>
        (v \<in> set (pkiller_list (ph' u)) \<longrightarrow> u \<in> set (kill_value_list (ph' v))))"
proof -
  from compute_pkill_set_ok[OF ok info_eq_refl, of sink rss_nodes] obtain ph' where
      r: "compute_pkill_set sink rss_nodes ph = Inr ph'" and i: "info_eq ph ph'"
      and p: "\<forall>n. set (pkiller_list (ph' n)) = set (pkiller_list (ph n)) \<union>
           (if n \<in> set rss_nodes then {v \<in> set (consumer_list (ph n)). PK0 ph v n} else {})"
      and k: "\<forall>n. set (kill_value_list (ph' n)) = set (kill_value_list (ph n)) \<union>
           {u \<in> set rss_nodes. n \<in> set (consumer_list (ph u)) \<and> PK0 ph n u}"
    by blast
  have "\<forall>u \<in> set rss_nodes. \<forall>v.
        (v \<in> set (pkiller_list (ph' u)) \<longleftrightarrow>
           v \<in> set (consumer_list (ph' u)) \<and>
           set (descendant_list (ph' v)) \<inter> set (consumer_list (ph' u)) \<subseteq> {v}) \<and>
        (v \<in> set (pkiller_list (ph' u)) \<longrightarrow> u \<in> set (kill_value_list (ph' v)))"
  proof (intro ballI allI)
    fix u v assume u: "u \<in> set rss_nodes"
    have c: "consumer_list (ph' u) = consumer_list (ph u)"
      and d: "descendant_list (ph' v) = descendant_list (ph v)"
      using i by (simp_all add: info_eq_def)
    have nv: "v \<notin> set (descendant_list (ph v))" using ac by (simp add: block_acyclic_def)
    have pk: "v \<in> set (pkiller_list (ph' u)) \<longleftrightarrow> v \<in> set (consumer_list (ph u)) \<and> PK0 ph v u"
      using p u fresh by auto
    have sub: "PK0 ph v u \<longleftrightarrow> set (descendant_list (ph v)) \<inter> set (consumer_list (ph u)) \<subseteq> {v}"
      using nv by (auto simp: PK0_def)
    have kv: "v \<in> set (pkiller_list (ph' u)) \<longrightarrow> u \<in> set (kill_value_list (ph' v))"
      using pk k u by auto
    show "(v \<in> set (pkiller_list (ph' u)) \<longleftrightarrow>
           v \<in> set (consumer_list (ph' u)) \<and>
           set (descendant_list (ph' v)) \<inter> set (consumer_list (ph' u)) \<subseteq> {v}) \<and>
        (v \<in> set (pkiller_list (ph' u)) \<longrightarrow> u \<in> set (kill_value_list (ph' v)))"
      using pk sub kv c d by simp
  qed
  with r show ?thesis by blast
qed

lemma pkill_set_characterisation_example:
  "node_info_ok straight_line \<and> block_acyclic straight_line \<and>
   pkiller_list (straight_line 7) = [] \<and> pkiller_list (straight_line 1) = [] \<and>
   pkiller_list (straight_line 2) = [] \<and>
   (\<exists>ph'. compute_pkill_set 7 [7, 1, 2] straight_line = Inr ph' \<and>
     (\<forall>u \<in> set [7, 1, 2]. \<forall>v.
        (v \<in> set (pkiller_list (ph' u)) \<longleftrightarrow>
           v \<in> set (consumer_list (ph' u)) \<and>
           set (descendant_list (ph' v)) \<inter> set (consumer_list (ph' u)) \<subseteq> {v}) \<and>
        (v \<in> set (pkiller_list (ph' u)) \<longrightarrow> u \<in> set (kill_value_list (ph' v)))))"
proof -
  have ok: "node_info_ok straight_line"
    by (simp add: node_info_ok_def straight_line_def init_rss_irn_def
        build_sorted_array_from_list_def)
  have ac: "block_acyclic straight_line"
    by (simp add: block_acyclic_def straight_line_def init_rss_irn_def)
  have e: "pkiller_list (straight_line 7) = []" "pkiller_list (straight_line 1) = []"
    "pkiller_list (straight_line 2) = []"
    by (simp_all add: straight_line_def init_rss_irn_def)
  then have fresh: "\<forall>u \<in> set [7, 1, 2]. pkiller_list (straight_line u) = []" by simp
  from pkill_set_characterisation[OF ok ac fresh, of 7] ok ac e show ?thesis by blast
qed

text \<open>
  Claim C4, at a failing input. In the block of \<open>mixed_classes_graph\<close> the value \<open>1\<close> has the
  consumers \<open>2\<close> and \<open>3\<close>, and \<open>3\<close> is a descendant of \<open>2\<close>, so \<open>descendants(2)\<close> meets
  \<open>consumers(1)\<close> in \<open>3\<close> and \<open>2\<close> is no potential killer of \<open>1\<close>. The class of \<open>1\<close> is the
  first that \<^verbatim>\<open>process_block\<close> takes: its nodes are the sink and \<open>1\<close>, no node information
  is built for \<open>2\<close>, whose recorded descendant list is empty, and \<^verbatim>\<open>compute_pkill_set\<close>
  records both \<open>2\<close> and \<open>3\<close> as potential killers of \<open>1\<close>. \<^verbatim>\<open>collect_descendants\<close> gives
  \<open>3\<close> and the sink for \<open>2\<close>.
\<close>

theorem pkill_set_of_mixed_classes:
  "(case init_rss_special_nodes mixed_classes_graph of
      (G, source, sink) \<Rightarrow>
        (sink,
         map_option (map_sum id (\<lambda>(rss_nodes, ph).
             (rss_nodes, consumer_list (ph 1), pkiller_list (ph 1), descendant_list (ph 2))))
           (class_pkill_set 5 G sink 10 1 (\<lambda>n. init_rss_irn)),
         collect_descendants 5 G sink 10 2 ([], False)))
   = (22, Some (Inr ([22, 1], [2, 3], [2, 3], [])), Some ([3, 22], True))"
  by code_simp

subsection \<open>The register budget\<close>

lemma popcnt_card: "bitset_popcnt a = card {i. i < length a \<and> a ! i}"
  by (simp add: bitset_popcnt_def length_filter_conv_card)

lemma andnot_nth: "i < length a \<Longrightarrow> i < length b \<Longrightarrow> bitset_andnot a b ! i = (a ! i \<and> \<not> b ! i)"
  by (simp add: bitset_andnot_def)

lemma andnot_length: "length (bitset_andnot a b) = min (length a) (length b)"
  by (simp add: bitset_andnot_def)

lemma avail_card:
  assumes "length a = length b"
  shows "available_regs a b = int (card {i. i < length a \<and> a ! i \<and> \<not> b ! i})"
proof -
  have "{i. i < length (bitset_andnot a b) \<and> bitset_andnot a b ! i} = {i. i < length a \<and> a ! i \<and> \<not> b ! i}"
    using assms by (auto simp: andnot_length andnot_nth)
  then show ?thesis by (simp add: available_regs_def popcnt_card)
qed

lemma avail_diff:
  assumes len: "length a = length b" and sub: "\<forall>i<length a. b ! i \<longrightarrow> a ! i"
  shows "available_regs a b = int (bitset_popcnt a) - int (bitset_popcnt b)"
proof -
  let ?A = "{i. i < length a \<and> a ! i}" and ?B = "{i. i < length b \<and> b ! i}"
  have fin: "finite ?A" "finite ?B" by simp_all
  have BA: "?B \<subseteq> ?A" using len sub by auto
  have "{i. i < length a \<and> a ! i \<and> \<not> b ! i} = ?A - ?B" using len by auto
  then have "card {i. i < length a \<and> a ! i \<and> \<not> b ! i} = card ?A - card ?B"
    using card_Diff_subset[OF fin(2) BA] by simp
  moreover have "card ?B \<le> card ?A" using card_mono[OF fin(1) BA] .
  ultimately show ?thesis using avail_card[OF len] by (simp add: popcnt_card)
qed

text \<open>
  Claim C9, as stated: the budget is \<open>|non-ignore| - |ABI-reserved|\<close> for all bitsets.
  It fails when a reserved register is not a non-ignore register.
\<close>

theorem available_regs_counterexample:
  "available_regs [True, False] [False, True] \<noteq>
     int (bitset_popcnt [True, False]) - int (bitset_popcnt [False, True])"
  by (simp add: available_regs_def bitset_andnot_def bitset_popcnt_def)

text \<open>
  Claim C9, amended. The budget is the number of non-ignore registers that are not
  ABI-reserved; it is \<open>|non-ignore| - |ABI-reserved|\<close> when every ABI-reserved register
  is a non-ignore register.
\<close>

theorem available_regs_budget:
  assumes "length a = length b"
  shows "available_regs a b = int (card {i. i < length a \<and> a ! i \<and> \<not> b ! i}) \<and>
     ((\<forall>i<length a. b ! i \<longrightarrow> a ! i) \<longrightarrow>
        available_regs a b = int (bitset_popcnt a) - int (bitset_popcnt b))"
  using avail_card[OF assms] avail_diff[OF assms] by blast

theorem available_regs_budget_witness:
  "length [True, True, False] = length [False, True, False] \<and>
   available_regs [True, True, False] [False, True, False] =
     int (card {i. i < length [True, True, False] \<and> [True, True, False] ! i \<and>
                 \<not> [False, True, False] ! i}) \<and>
   available_regs [True, True, False] [False, True, False] =
     int (bitset_popcnt [True, True, False]) - int (bitset_popcnt [False, True, False])"
proof -
  have l: "length [True, True, False] = length [False, True, False]" by simp
  have s: "\<forall>i<length [True, True, False]. [False, True, False] ! i \<longrightarrow> [True, True, False] ! i"
    by (simp add: nth_Cons' )
  from available_regs_budget[OF l] l s show ?thesis by blast
qed

subsection \<open>The killing function\<close>

lemma pk_same_refl: "pk_same ph ph" by (simp add: pk_same_def)
lemma pk_same_trans: "pk_same a b \<Longrightarrow> pk_same b c \<Longrightarrow> pk_same a c" by (simp add: pk_same_def)

lemma edges_pk_same: "pk_same ph ph' \<Longrightarrow> edges_are_pkills ph es \<Longrightarrow> edges_are_pkills ph' es"
  by (simp add: pk_same_def edges_are_pkills_def)

lemma set_pset_insert: "set (pset_insert s e) = insert e (set s)"
  by (auto simp: pset_insert_def)

lemma set_foldl_pset_insert: "set (foldl pset_insert s es) = set s \<union> set es"
  by (induction es arbitrary: s) (auto simp: set_pset_insert)

lemma set_foldl_kill: "set (foldl (\<lambda>e pkiller. pset_insert e (u, pkiller)) epk l)
    = set epk \<union> {(u, pk) | pk. pk \<in> set l}"
  by (induction l arbitrary: epk) (auto simp: set_pset_insert)

lemma build_kill_edges_pk:
  "edges_are_pkills ph epk \<Longrightarrow> edges_are_pkills ph (build_kill_edges ph ns epk)"
proof (induction ns arbitrary: epk)
  case Nil then show ?case by simp
next
  case (Cons u ns)
  have "edges_are_pkills ph (foldl (\<lambda>e pkiller. pset_insert e (u, pkiller)) epk (pkiller_list (ph u)))"
    using Cons.prems by (auto simp: edges_are_pkills_def set_foldl_kill)
  from Cons.IH[OF this] show ?case by simp
qed

lemma kill_eq_refl: "kill_eq ph ph" by (simp add: kill_eq_def)
lemma kill_eq_trans: "kill_eq a b \<Longrightarrow> kill_eq b c \<Longrightarrow> kill_eq a c" by (simp add: kill_eq_def)

lemma mark_parents_kill_eq: "mark_parents ss ph ch = (ph1, ch1) \<Longrightarrow> kill_eq ph ph1"
proof (induction ss arbitrary: ph ch)
  case Nil then show ?case by (simp add: kill_eq_def)
next
  case (Cons s ss)
  let ?ph = "ph(s := (ph s)\<lparr>visited := True\<rparr>)"
  have a: "kill_eq ph ?ph" by (simp add: kill_eq_def)
  from Cons.prems have "mark_parents ss ?ph (if nodeset_find ch s then nodeset_remove ch s else ch) = (ph1, ch1)"
    by simp
  from Cons.IH[OF this] a show ?case by (rule kill_eq_trans[rotated])
qed

lemma edges_kill_eq: "kill_eq ph ph' \<Longrightarrow> edges_are_pkills ph es \<Longrightarrow> edges_are_pkills ph' es"
  by (simp add: kill_eq_def edges_are_pkills_def)

lemma decompose_ok:
  "decompose sink ph us epk cs k = Some (ph', cbcs) \<Longrightarrow> edges_are_pkills ph epk \<Longrightarrow>
   (\<forall>c \<in> set cs. edges_are_pkills ph (kill_edges c)) \<Longrightarrow>
   kill_eq ph ph' \<and> (\<forall>c \<in> set cbcs. edges_are_pkills ph (kill_edges c))"
proof (induction us arbitrary: ph epk cs k)
  case Nil
  then show ?case by (simp add: kill_eq_refl)
next
  case (Cons u us)
  show ?case
  proof (cases "visited (ph u) \<or> u = sink")
    case True
    with Cons.prems(1) have "decompose sink ph us epk cs k = Some (ph', cbcs)" by simp
    from Cons.IH[OF this Cons.prems(2,3)] show ?thesis .
  next
    case False
    from False Cons.prems(1) obtain parents children where
      cl: "cbc_closure ph (nodeset_insert [] u) (foldl nodeset_insert [] (pkiller_list (ph u)))
            = Some (parents, children)"
      by (auto split: option.splits)
    obtain ph1 children1 where mp: "mark_parents parents ph children = (ph1, children1)"
      by (cases "mark_parents parents ph children")
    let ?c = "\<lparr> cbc_parents = parents, cbc_children = children1,
                 kill_edges = foldl pset_insert [] (filter (cbc_edge parents children1) epk),
                 cbc_nr = k \<rparr>"
    from False Cons.prems(1) cl mp have
      r: "decompose sink ph1 us (filter (\<lambda>k_edge. \<not> cbc_edge parents children1 k_edge) epk)
            (cs @ [?c]) (k + 1) = Some (ph', cbcs)" by simp
    have ke: "kill_eq ph ph1" by (rule mark_parents_kill_eq[OF mp])
    have e1: "edges_are_pkills ph1 (filter (\<lambda>k_edge. \<not> cbc_edge parents children1 k_edge) epk)"
      using Cons.prems(2) ke by (auto simp: edges_are_pkills_def kill_eq_def)
    have e2: "\<forall>c \<in> set (cs @ [?c]). edges_are_pkills ph1 (kill_edges c)"
      using Cons.prems(2,3) ke
      by (auto simp: edges_are_pkills_def kill_eq_def set_foldl_pset_insert)
    from Cons.IH[OF r e1 e2] have "kill_eq ph1 ph'"
      and "\<forall>c \<in> set cbcs. edges_are_pkills ph1 (kill_edges c)" by blast+
    with ke show ?thesis by (auto simp: kill_eq_def edges_are_pkills_def)
  qed
qed

lemma compute_bipartite_decomposition_ok:
  assumes "compute_bipartite_decomposition sink ph ns = Some (ph', cbcs)"
  shows "kill_eq ph ph' \<and> (\<forall>c \<in> set cbcs. edges_are_pkills ph' (kill_edges c))"
proof -
  have e: "edges_are_pkills ph (build_kill_edges ph ns [])"
    by (rule build_kill_edges_pk) (simp add: edges_are_pkills_def)
  from decompose_ok[OF assms[unfolded compute_bipartite_decomposition_def] e]
  have "kill_eq ph ph'" and "\<forall>c \<in> set cbcs. edges_are_pkills ph (kill_edges c)" by simp_all
  then show ?thesis by (auto simp: kill_eq_def edges_are_pkills_def)
qed

lemma remove_covered_parents_ok:
  "remove_covered_parents t es ph x = (ph1, x1) \<Longrightarrow> edges_are_pkills ph es \<Longrightarrow>
   parents_are_killed ph \<Longrightarrow>
   parents_are_killed ph1 \<and> pk_same ph ph1 \<and> (\<forall>n. killer (ph1 n) = killer (ph n))"
proof (induction es arbitrary: ph x)
  case Nil
  then show ?case by (simp add: pk_same_def)
next
  case (Cons e es)
  show ?case
  proof (cases "snd e = t \<and> nodeset_find x (fst e)")
    case True
    let ?ph = "ph(t := (ph t)\<lparr>parent_list := plist_insert_back (parent_list (ph t)) (fst e)\<rparr>)"
    from True Cons.prems(1) have r: "remove_covered_parents t es ?ph (nodeset_remove x (fst e)) = (ph1, x1)"
      by simp
    have s: "pk_same ph ?ph" by (simp add: pk_same_def)
    have e0: "edges_are_pkills ph es" using Cons.prems(2) by (simp add: edges_are_pkills_def)
    have e1: "edges_are_pkills ?ph es" by (rule edges_pk_same[OF s e0])
    have "t \<in> set (pkiller_list (ph (fst e)))" using Cons.prems(2) True
      by (simp add: edges_are_pkills_def)
    then have j: "parents_are_killed ?ph" using Cons.prems(3)
      by (auto simp: parents_are_killed_def plist_insert_back_def)
    from Cons.IH[OF r e1 j] s show ?thesis by (auto simp: pk_same_def)
  next
    case False
    with Cons.prems(1) have r: "remove_covered_parents t es ph x = (ph1, x1)" by auto
    have e1: "edges_are_pkills ph es" using Cons.prems(2) by (simp add: edges_are_pkills_def)
    from Cons.IH[OF r e1 Cons.prems(3)] show ?thesis .
  qed
qed

lemma sks_loop_raw:
  assumes a: "sks_loop F c ph x y sks = Some r"
    and step: "\<And>(f :: 'a float_ops \<Rightarrow> cbc \<Rightarrow> phase \<Rightarrow> node list \<Rightarrow> node list \<Rightarrow> 'a child list
      \<Rightarrow> (error + phase \<times> 'a child list) option) F c ph x y sks r.
      (\<And>F c ph x y sks r. f F c ph x y sks = Some r \<Longrightarrow> P F c ph x y sks r) \<Longrightarrow>
      (if 0 < nodeset_count x
       then case irn (select_child_max_cost F ph x y c) of
            None \<Rightarrow> Some (Inl NullDeref)
          | Some t_irn \<Rightarrow>
             (case remove_covered_parents t_irn (kill_edges c) ph x of
               (ph1, x1) \<Rightarrow>
                 f F c ph1 x1 (update_cumulated_descendent_values ph1 y t_irn)
                   (sks @ [select_child_max_cost F ph x y c]))
       else Some (Inr (ph, sks))) = Some r \<Longrightarrow> P F c ph x y sks r"
  shows "P F c ph x y sks r"
proof -
  note R = sks_loop.raw_induct[where P = P and xa = "(((((F, c), ph), x), y), sks)" and ya = r,
      unfolded prod.case]
  show ?thesis
  proof (rule R)
    show "sks_loop F c ph x y sks = Some r" by (rule a)
  next
    fix f :: "'a float_ops \<Rightarrow> cbc \<Rightarrow> phase \<Rightarrow> node list \<Rightarrow> node list \<Rightarrow> 'a child list
      \<Rightarrow> (error + phase \<times> 'a child list) option" and F c ph x y sks r
    assume "\<And>F c ph x y sks r. f F c ph x y sks = Some r \<Longrightarrow> P F c ph x y sks r"
      and "(if 0 < nodeset_count x
       then case irn (select_child_max_cost F ph x y c) of
            None \<Rightarrow> Some (Inl NullDeref)
          | Some t_irn \<Rightarrow>
             (case remove_covered_parents t_irn (kill_edges c) ph x of
               (ph1, x1) \<Rightarrow>
                 f F c ph1 x1 (update_cumulated_descendent_values ph1 y t_irn)
                   (sks @ [select_child_max_cost F ph x y c]))
       else Some (Inr (ph, sks))) = Some r"
    then show "P F c ph x y sks r" by (rule step)
  qed
qed

lemma sks_loop_ok:
  assumes "sks_loop F c ph x y sks = Some r"
  shows "edges_are_pkills ph (kill_edges c) \<longrightarrow> parents_are_killed ph \<longrightarrow>
     (\<forall>ph' sks'. r = Inr (ph', sks') \<longrightarrow>
        parents_are_killed ph' \<and> pk_same ph ph' \<and> (\<forall>n. killer (ph' n) = killer (ph n)))"
proof (rule sks_loop_raw[OF assms])
  fix f :: "'a float_ops \<Rightarrow> cbc \<Rightarrow> phase \<Rightarrow> node list \<Rightarrow> node list \<Rightarrow> 'a child list
      \<Rightarrow> (error + phase \<times> 'a child list) option"
    and F :: "'a float_ops" and c ph x y sks r
  assume IH: "\<And>F c ph x y sks r. f F c ph x y sks = Some r \<Longrightarrow>
     edges_are_pkills ph (kill_edges c) \<longrightarrow> parents_are_killed ph \<longrightarrow>
     (\<forall>ph' sks'. r = Inr (ph', sks') \<longrightarrow>
        parents_are_killed ph' \<and> pk_same ph ph' \<and> (\<forall>n. killer (ph' n) = killer (ph n)))"
  assume body: "(if 0 < nodeset_count x
       then case irn (select_child_max_cost F ph x y c) of
            None \<Rightarrow> Some (Inl NullDeref)
          | Some t_irn \<Rightarrow>
             (case remove_covered_parents t_irn (kill_edges c) ph x of
               (ph1, x1) \<Rightarrow>
                 f F c ph1 x1 (update_cumulated_descendent_values ph1 y t_irn)
                   (sks @ [select_child_max_cost F ph x y c]))
       else Some (Inr (ph, sks))) = Some r"
  show "edges_are_pkills ph (kill_edges c) \<longrightarrow> parents_are_killed ph \<longrightarrow>
     (\<forall>ph' sks'. r = Inr (ph', sks') \<longrightarrow>
        parents_are_killed ph' \<and> pk_same ph ph' \<and> (\<forall>n. killer (ph' n) = killer (ph n)))"
  proof (intro impI allI)
    fix ph' sks'
    assume K: "edges_are_pkills ph (kill_edges c)" and J: "parents_are_killed ph"
      and r: "r = Inr (ph', sks')"
    show "parents_are_killed ph' \<and> pk_same ph ph' \<and> (\<forall>n. killer (ph' n) = killer (ph n))"
    proof (cases "0 < nodeset_count x")
      case False
      with body r have "ph' = ph" by simp
      with J show ?thesis by (simp add: pk_same_def)
    next
      case True
      with body r obtain t where t: "irn (select_child_max_cost F ph x y c) = Some t"
        by (auto split: option.splits)
      obtain ph1 x1 where rc: "remove_covered_parents t (kill_edges c) ph x = (ph1, x1)"
        by (cases "remove_covered_parents t (kill_edges c) ph x")
      from True body t rc have rec: "f F c ph1 x1 (update_cumulated_descendent_values ph1 y t)
          (sks @ [select_child_max_cost F ph x y c]) = Some r" by simp
      from remove_covered_parents_ok[OF rc K J] have J1: "parents_are_killed ph1"
        and s1: "pk_same ph ph1" and k1: "\<forall>n. killer (ph1 n) = killer (ph n)" by blast+
      have K1: "edges_are_pkills ph1 (kill_edges c)" by (rule edges_pk_same[OF s1 K])
      from IH[OF rec] K1 J1 r have "parents_are_killed ph'" "pk_same ph1 ph'"
        "\<forall>n. killer (ph' n) = killer (ph1 n)" by blast+
      with s1 k1 show ?thesis by (auto simp: pk_same_def)
    qed
  qed
qed

lemma kill_parents_ok:
  "\<forall>p \<in> set ps. t \<in> set (pkiller_list (ph p)) \<Longrightarrow> killer_ok sink N ph \<Longrightarrow>
   killer_ok sink N (kill_parents sink t ps ph) \<and> pk_same ph (kill_parents sink t ps ph) \<and>
   (\<forall>n. parent_list (kill_parents sink t ps ph n) = parent_list (ph n))"
proof (induction ps arbitrary: ph)
  case Nil
  then show ?case by (simp add: pk_same_def)
next
  case (Cons p ps)
  show ?case
  proof (cases "killer (ph p) = Some sink")
    case True
    define ph0 where "ph0 = ph(p := (ph p)\<lparr>killer := Some t\<rparr>)"
    have eq: "kill_parents sink t (p # ps) ph = kill_parents sink t ps ph0"
      using True by (simp add: ph0_def)
    have s0: "pk_same ph ph0" by (simp add: pk_same_def ph0_def)
    have p0: "\<forall>n. parent_list (ph0 n) = parent_list (ph n)" by (simp add: ph0_def)
    have a: "\<forall>q \<in> set ps. t \<in> set (pkiller_list (ph0 q))"
      using Cons.prems(1) s0 by (simp add: pk_same_def)
    have "t \<in> set (pkiller_list (ph p))" using Cons.prems(1) by simp
    then have b: "killer_ok sink N ph0" using Cons.prems(2)
      by (auto simp: killer_ok_def ph0_def)
    from Cons.IH[OF a b] have "killer_ok sink N (kill_parents sink t ps ph0)"
      and "pk_same ph0 (kill_parents sink t ps ph0)"
      and "\<forall>n. parent_list (kill_parents sink t ps ph0 n) = parent_list (ph0 n)" by blast+
    with s0 p0 show ?thesis unfolding eq by (simp add: pk_same_def)
  next
    case False
    have a: "\<forall>q \<in> set ps. t \<in> set (pkiller_list (ph q))" using Cons.prems(1) by simp
    from Cons.IH[OF a Cons.prems(2)] False show ?thesis by simp
  qed
qed

lemma build_killing_function_ok:
  "build_killing_function sink ts ph = Inr ph' \<Longrightarrow> parents_are_killed ph \<Longrightarrow>
   killer_ok sink N ph \<Longrightarrow>
   parents_are_killed ph' \<and> killer_ok sink N ph' \<and> pk_same ph ph'"
proof (induction ts arbitrary: ph)
  case Nil
  then show ?case by (simp add: pk_same_def)
next
  case (Cons t ts)
  from Cons.prems(1) obtain ti where ti: "irn t = Some ti" by (auto split: option.splits)
  let ?ph = "kill_parents sink ti (parent_list (ph ti)) ph"
  from Cons.prems(1) ti have r: "build_killing_function sink ts ?ph = Inr ph'" by simp
  have a: "\<forall>p \<in> set (parent_list (ph ti)). ti \<in> set (pkiller_list (ph p))"
    using Cons.prems(2) by (simp add: parents_are_killed_def)
  from kill_parents_ok[OF a Cons.prems(3)] have k: "killer_ok sink N ?ph" and s: "pk_same ph ?ph"
    and pl: "\<forall>n. parent_list (?ph n) = parent_list (ph n)" by blast+
  have j: "parents_are_killed ?ph" using Cons.prems(2) s pl
    by (simp add: parents_are_killed_def pk_same_def)
  from Cons.IH[OF r j k] s show ?case by (auto simp: pk_same_def)
qed

lemma killer_ok_eq:
  "pk_same ph ph' \<Longrightarrow> \<forall>n. killer (ph' n) = killer (ph n) \<Longrightarrow> killer_ok sink N ph
    \<Longrightarrow> killer_ok sink N ph'"
  by (simp add: killer_ok_def pk_same_def)

lemma killing_cbcs_ok:
  "killing_cbcs F qsort sink cs ph = Some (Inr ph') \<Longrightarrow>
   \<forall>c \<in> set cs. edges_are_pkills ph (kill_edges c) \<Longrightarrow> parents_are_killed ph \<Longrightarrow>
   killer_ok sink N ph \<Longrightarrow>
   parents_are_killed ph' \<and> killer_ok sink N ph' \<and> pk_same ph ph'"
proof (induction cs arbitrary: ph)
  case Nil
  then show ?case by (simp add: pk_same_def)
next
  case (Cons c cs)
  from Cons.prems(1) obtain ph1 sks where
    l: "sks_loop F c ph (foldl nodeset_insert [] (cbc_parents c)) [] [] = Some (Inr (ph1, sks))"
    by (auto split: option.splits sum.splits)
  from Cons.prems(1) l obtain ph2 where
    b: "build_killing_function sink (rev (qsort sks)) ph1 = Inr ph2"
    by (auto split: sum.splits)
  from Cons.prems(1) l b have r: "killing_cbcs F qsort sink cs ph2 = Some (Inr ph')" by simp
  from sks_loop_ok[OF l] Cons.prems(2,3) have j1: "parents_are_killed ph1" and s1: "pk_same ph ph1"
    and k1: "\<forall>n. killer (ph1 n) = killer (ph n)" by auto
  have i1: "killer_ok sink N ph1" by (rule killer_ok_eq[OF s1 k1 Cons.prems(4)])
  from build_killing_function_ok[OF b j1 i1] have j2: "parents_are_killed ph2"
    and i2: "killer_ok sink N ph2" and s2: "pk_same ph1 ph2" by blast+
  have s: "pk_same ph ph2" by (rule pk_same_trans[OF s1 s2])
  have e2: "\<forall>c \<in> set cs. edges_are_pkills ph2 (kill_edges c)"
    using Cons.prems(2) s by (auto intro: edges_pk_same)
  from Cons.IH[OF r e2 j2 i2] s show ?case by (auto simp: pk_same_def)
qed

lemma compute_killing_function_ok:
  assumes "compute_killing_function F qsort sink ns ph = Some (Inr ph')"
    and "parents_are_killed ph" and "killer_ok sink N ph"
  shows "parents_are_killed ph' \<and> killer_ok sink N ph' \<and> pk_same ph ph'"
proof -
  from assms(1) obtain ph1 cbcs where
    d: "compute_bipartite_decomposition sink ph ns = Some (ph1, cbcs)"
    and r: "killing_cbcs F qsort sink cbcs ph1 = Some (Inr ph')"
    by (auto simp: compute_killing_function_def split: option.splits)
  from compute_bipartite_decomposition_ok[OF d] have ke: "kill_eq ph ph1"
    and e: "\<forall>c \<in> set cbcs. edges_are_pkills ph1 (kill_edges c)" by blast+
  have j: "parents_are_killed ph1" using assms(2) ke
    by (simp add: parents_are_killed_def kill_eq_def)
  have i: "killer_ok sink N ph1" using assms(3) ke by (simp add: killer_ok_def kill_eq_def)
  from killing_cbcs_ok[OF r e j i] ke show ?thesis by (auto simp: pk_same_def kill_eq_def)
qed

text \<open>What \<^verbatim>\<open>compute_pkill_set\<close> leaves unchanged, whatever the node information.\<close>

lemma record_pkiller_frame:
  "set (pkiller_list (ph n)) \<subseteq> set (pkiller_list (record_pkiller u v ph n)) \<and>
   parent_list (record_pkiller u v ph n) = parent_list (ph n) \<and>
   killer (record_pkiller u v ph n) = killer (ph n)"
  by (auto simp: record_pkiller_def Let_def plist_insert_back_def)

lemma pkill_consumers_frame:
  "pkill_consumers u vs ph = Inr ph' \<Longrightarrow>
   (\<forall>n. set (pkiller_list (ph n)) \<subseteq> set (pkiller_list (ph' n)) \<and>
        parent_list (ph' n) = parent_list (ph n) \<and> killer (ph' n) = killer (ph n))"
proof (induction vs arbitrary: ph)
  case Nil then show ?case by simp
next
  case (Cons v vs)
  from Cons.prems obtain b where b: "is_potential_killer (ph v) (ph u) = Inr b"
    by (auto split: sum.splits)
  show ?case
  proof (cases b)
    case True
    with Cons.prems b have "pkill_consumers u vs (record_pkiller u v ph) = Inr ph'" by simp
    from Cons.IH[OF this] record_pkiller_frame[of ph _ u v] show ?thesis by (metis subset_trans)
  next
    case False
    with Cons.prems b have "pkill_consumers u vs ph = Inr ph'" by simp
    from Cons.IH[OF this] show ?thesis .
  qed
qed

lemma compute_pkill_set_frame:
  "compute_pkill_set sink us ph = Inr ph' \<Longrightarrow>
   (\<forall>n. set (pkiller_list (ph n)) \<subseteq> set (pkiller_list (ph' n)) \<and>
        parent_list (ph' n) = parent_list (ph n) \<and>
        killer (ph' n) = (if n \<in> set us then Some sink else killer (ph n)))"
proof (induction us arbitrary: ph)
  case Nil then show ?case by simp
next
  case (Cons u us)
  from Cons.prems obtain ph1 where p1: "pkill_consumers u (consumer_list (ph u)) ph = Inr ph1"
    by (auto split: sum.splits)
  let ?ph2 = "ph1(u := (ph1 u)\<lparr>killer := Some sink\<rparr>)"
  from Cons.prems p1 have r: "compute_pkill_set sink us ?ph2 = Inr ph'" by simp
  note f1 = pkill_consumers_frame[OF p1]
  note f2 = Cons.IH[OF r]
  show ?case
  proof
    fix n
    from f1 have a: "set (pkiller_list (ph n)) \<subseteq> set (pkiller_list (ph1 n))"
      "parent_list (ph1 n) = parent_list (ph n)" "killer (ph1 n) = killer (ph n)" by simp_all
    from f2 have b: "set (pkiller_list (?ph2 n)) \<subseteq> set (pkiller_list (ph' n))"
      "parent_list (ph' n) = parent_list (?ph2 n)"
      "killer (ph' n) = (if n \<in> set us then Some sink else killer (?ph2 n))" by blast+
    from a b show "set (pkiller_list (ph n)) \<subseteq> set (pkiller_list (ph' n)) \<and>
        parent_list (ph' n) = parent_list (ph n) \<and>
        killer (ph' n) = (if n \<in> set (u # us) then Some sink else killer (ph n))"
      by (cases "n = u") auto
  qed
qed

text \<open>
  Claim C5. After \<^verbatim>\<open>compute_pkill_set\<close> and \<^verbatim>\<open>compute_killing_function\<close> for a block and a
  register class, every node of \<^verbatim>\<open>rss->nodes\<close> has the sink or one of its potential killers
  as killer. It holds for every behaviour of the \<^verbatim>\<open>float\<close> costs and of \<^verbatim>\<open>qsort\<close>, from
  any phase in which the parent lists left by earlier classes are consistent.
\<close>

theorem killer_is_sink_or_pkiller:
  assumes "parents_are_killed ph"
    and "compute_pkill_set sink rss_nodes ph = Inr ph1"
    and "compute_killing_function F qsort sink rss_nodes ph1 = Some (Inr ph2)"
  shows "\<forall>u \<in> set rss_nodes. killer (ph2 u) = Some sink \<or>
           (\<exists>v \<in> set (pkiller_list (ph2 u)). killer (ph2 u) = Some v)"
proof -
  note f = compute_pkill_set_frame[OF assms(2)]
  have j: "parents_are_killed ph1" using assms(1) f
    by (auto simp: parents_are_killed_def)
  have i: "killer_ok sink (set rss_nodes) ph1" using f by (simp add: killer_ok_def)
  from compute_killing_function_ok[OF assms(3) j i] show ?thesis by (simp add: killer_ok_def)
qed

lemma returns_ok: "(case r of Some (Inr x) \<Rightarrow> True | _ \<Rightarrow> False) \<Longrightarrow> \<exists>x. r = Some (Inr x)"
  by (auto split: option.splits sum.splits)

lemma then_ok:
  "(case a of Inl e \<Rightarrow> Some (Inl e) | Inr p \<Rightarrow> f p) = Some (Inr x)
     \<Longrightarrow> \<exists>p. a = Inr p \<and> f p = Some (Inr x)"
  by (auto split: sum.splits)

theorem killer_is_sink_or_pkiller_witness:
  "parents_are_killed straight_line \<and>
   (\<exists>ph1 ph2. compute_pkill_set 7 [7, 1, 2] straight_line = Inr ph1 \<and>
      compute_killing_function exact_ops sort_by_cost 7 [7, 1, 2] ph1 = Some (Inr ph2) \<and>
      (\<forall>u \<in> set [7, 1, 2]. killer (ph2 u) = Some 7 \<or>
           (\<exists>v \<in> set (pkiller_list (ph2 u)). killer (ph2 u) = Some v)))"
proof -
  have j: "parents_are_killed straight_line"
    by (simp add: parents_are_killed_def straight_line_def init_rss_irn_def)
  have "(case (case compute_pkill_set 7 [7, 1, 2] straight_line of Inl e \<Rightarrow> Some (Inl e)
      | Inr ph1 \<Rightarrow> compute_killing_function exact_ops sort_by_cost 7 [7, 1, 2] ph1) of
    Some (Inr ph2) \<Rightarrow> True | _ \<Rightarrow> False)"
    by code_simp
  from returns_ok[OF this] obtain ph2 where
    "(case compute_pkill_set 7 [7, 1, 2] straight_line of Inl e \<Rightarrow> Some (Inl e)
      | Inr ph1 \<Rightarrow> compute_killing_function exact_ops sort_by_cost 7 [7, 1, 2] ph1)
     = Some (Inr ph2)" by blast
  from then_ok[OF this] obtain ph1 where p1: "compute_pkill_set 7 [7, 1, 2] straight_line = Inr ph1"
    and p2: "compute_killing_function exact_ops sort_by_cost 7 [7, 1, 2] ph1 = Some (Inr ph2)"
    by blast
  from killer_is_sink_or_pkiller[OF j p1 p2] j p1 p2 show ?thesis by blast
qed

subsection \<open>The refinement loop of the antichain\<close>

lemma plist_find_value_Some:
  "plist_find_value xs v = Some el \<Longrightarrow> el < length xs \<and> xs ! el = v"
  by (induction xs arbitrary: el) (auto split: if_splits)

lemma plist_find_value_nth:
  "i < length xs \<Longrightarrow> \<exists>el. el \<le> i \<and> plist_find_value xs (xs ! i) = Some el"
proof (induction xs arbitrary: i)
  case Nil then show ?case by simp
next
  case (Cons x xs)
  show ?case
  proof (cases i)
    case 0 then show ?thesis by simp
  next
    case (Suc j)
    with Cons.prems have "j < length xs" by simp
    from Cons.IH[OF this] obtain el where "el \<le> j" "plist_find_value xs (xs ! j) = Some el" by blast
    with Suc show ?thesis by (cases "x = xs ! j") auto
  qed
qed

lemma plist_find_value_mem:
  "v \<in> set xs \<Longrightarrow> \<exists>el. el < length xs \<and> plist_find_value xs v = Some el"
proof -
  assume "v \<in> set xs"
  then obtain i where i: "i < length xs" "xs ! i = v" by (auto simp: in_set_conv_nth)
  from plist_find_value_nth[OF i(1)] i show ?thesis by auto
qed

lemma other_index_iff: "other_index i js = (\<exists>j \<in> set js. j \<noteq> i)"
  by (induction js) auto

lemma other_index_upt: "i < n \<Longrightarrow> other_index i [0..<n] = (2 \<le> n)"
proof -
  assume i: "i < n"
  show ?thesis
  proof (cases "2 \<le> n")
    case True
    then have "(if i = 0 then 1 else 0) < n \<and> (if i = 0 then 1 else 0) \<noteq> i" by auto
    then have "\<exists>j \<in> set [0..<n]. j \<noteq> i" by (metis atLeastLessThan_iff set_upt zero_le)
    with True show ?thesis by (simp add: other_index_iff)
  next
    case False
    with i have "n = 1" "i = 0" by auto
    then show ?thesis by (simp add: other_index_iff)
  qed
qed

lemma select_nodes_few:
  "n < 2 \<Longrightarrow> \<forall>i \<in> set idxs. i < n \<Longrightarrow> select_nodes val_arr n idxs values temp = (values, temp)"
  by (induction idxs arbitrary: "values" temp) (auto simp: other_index_upt)

lemma select_nodes_many:
  "2 \<le> n \<Longrightarrow> \<forall>i \<in> set idxs. i < n \<Longrightarrow> select_nodes val_arr n idxs values temp = (values1, temp1)
   \<Longrightarrow> set values1 = set values - {val_arr ! i | i. i \<in> set idxs} \<and>
       set temp1 = set temp \<union> {val_arr ! i | i. i \<in> set idxs}"
proof (induction idxs arbitrary: "values" temp)
  case Nil then show ?case by simp
next
  case (Cons i idxs)
  from Cons.prems have oi: "other_index i [0..<n]" by (simp add: other_index_upt)
  with Cons.prems(3) have r: "select_nodes val_arr n idxs (nodeset_remove values (val_arr ! i))
             (nodeset_insert temp (val_arr ! i)) = (values1, temp1)" by simp
  from Cons.prems(2) have "\<forall>i \<in> set idxs. i < n" by simp
  from Cons.IH[OF Cons.prems(1) this r] show ?case
    by (auto simp: nodeset_remove_def nodeset_insert_def)
qed

lemma select_nodes_all:
  assumes "2 \<le> length values"
    and "select_nodes values (nodeset_count values) [0..<nodeset_count values] values [] = (values1, temp)"
  shows "values1 = [] \<and> set temp = set values \<and> temp \<noteq> []"
proof -
  have a: "\<forall>i \<in> set [0..<nodeset_count values]. i < nodeset_count values" by simp
  have b: "2 \<le> nodeset_count values" using assms(1) by (simp add: nodeset_count_def)
  from select_nodes_many[OF b a assms(2)]
  have s: "set values1 = set values - {values ! i | i. i \<in> set [0..<nodeset_count values]}"
    and t: "set temp = set [] \<union> {values ! i | i. i \<in> set [0..<nodeset_count values]}" by blast+
  have e: "{values ! i | i. i \<in> set [0..<nodeset_count values]} = set values"
    by (auto simp: nodeset_count_def in_set_conv_nth)
  from s e have "set values1 = {}" by simp
  moreover from t e have "set temp = set values" by simp
  moreover from assms(1) have "values \<noteq> []" by auto
  ultimately show ?thesis by (metis set_empty)
qed

lemma insert_predecessors_ok:
  "chain_pos_below ph chain_heap (Suc k) temp \<Longrightarrow> chain_pos_below ph chain_heap k values \<Longrightarrow>
   \<exists>values2. insert_predecessors ph chain_heap temp values = Inr values2 \<and>
       chain_pos_below ph chain_heap k values2"
proof (induction temp arbitrary: "values")
  case Nil then show ?case by simp
next
  case (Cons u ts)
  from Cons.prems(1) obtain c el where c: "chain_ptr (ph u) = Some c" "c < length chain_heap"
    and el: "plist_find_value (elements (chain_heap ! c)) u = Some el" "el < Suc k"
    and pre: "\<forall>i < el. chain_ptr (ph (elements (chain_heap ! c) ! i)) = Some c"
    by (auto simp: chain_pos_below_def)
  have ts: "chain_pos_below ph chain_heap (Suc k) ts" using Cons.prems(1)
    by (simp add: chain_pos_below_def)
  show ?case
  proof (cases "el > 0")
    case False
    from Cons.IH[OF ts Cons.prems(2)] c el False show ?thesis by simp
  next
    case True
    let ?xs = "elements (chain_heap ! c)"
    let ?p = "?xs ! (el - 1)"
    from plist_find_value_Some[OF el(1)] have ell: "el < length ?xs" by simp
    with True have pl: "el - 1 < length ?xs" by simp
    from plist_find_value_nth[OF pl] obtain el' where el': "el' \<le> el - 1"
      "plist_find_value ?xs ?p = Some el'" by blast
    from pre True have pc: "chain_ptr (ph ?p) = Some c" by simp
    have lk: "el' < k" using el' el(2) True by simp
    have pre': "\<forall>i < el'. chain_ptr (ph (?xs ! i)) = Some c" using pre el'(1) True by simp
    from pc c(2) el'(2) lk pre' Cons.prems(2)
    have v: "chain_pos_below ph chain_heap k (nodeset_insert values ?p)"
      unfolding chain_pos_below_def nodeset_insert_def by (cases "?p \<in> set values") auto
    from Cons.IH[OF ts v] c el True show ?thesis by simp
  qed
qed

lemma antichain_loop_returns:
  "chain_pos_below ph chain_heap k values \<Longrightarrow>
     \<exists>r. antichain_loop ph chain_heap values = Some (Inr r)"
proof (induction k arbitrary: "values")
  case 0
  then have "values = []" by (cases "values") (auto simp: chain_pos_below_def)
  then show ?case by (subst antichain_loop.simps) (simp add: nodeset_count_def)
next
  case (Suc k)
  show ?case
  proof (cases "2 \<le> length values")
    case False
    then have "select_nodes values (nodeset_count values) [0..<nodeset_count values] values []
        = (values, [])"
      by (intro select_nodes_few) (auto simp: nodeset_count_def)
    then show ?thesis by (subst antichain_loop.simps) (simp add: nodeset_count_def)
  next
    case True
    obtain values1 temp where s: "select_nodes values (nodeset_count values)
        [0..<nodeset_count values] values [] = (values1, temp)"
      by (cases "select_nodes values (nodeset_count values) [0..<nodeset_count values] values []")
    from select_nodes_all[OF True s] have v1: "values1 = []" and t: "set temp = set values"
      and tn: "temp \<noteq> []" by blast+
    have tb: "chain_pos_below ph chain_heap (Suc k) temp" using Suc.prems t
      by (simp add: chain_pos_below_def)
    have vb: "chain_pos_below ph chain_heap k values1" using v1 by (simp add: chain_pos_below_def)
    from insert_predecessors_ok[OF tb vb] obtain values2 where
      ip: "insert_predecessors ph chain_heap temp values1 = Inr values2"
      and b2: "chain_pos_below ph chain_heap k values2" by blast
    from Suc.IH[OF b2] obtain r where "antichain_loop ph chain_heap values2 = Some (Inr r)" by blast
    with s ip tn show ?thesis by (subst antichain_loop.simps) (simp add: nodeset_count_def)
  qed
qed

lemma values_in_chains_below:
  assumes "values_in_chains ph chain_heap values"
  shows "chain_pos_below ph chain_heap
           (sum_list (map (\<lambda>c. length (elements c)) chain_heap)) values"
  unfolding chain_pos_below_def
proof
  fix v assume "v \<in> set values"
  with assms obtain c el where c: "chain_ptr (ph v) = Some c" "c < length chain_heap"
    "plist_find_value (elements (chain_heap ! c)) v = Some el"
    "\<forall>i < el. chain_ptr (ph (elements (chain_heap ! c) ! i)) = Some c"
    unfolding values_in_chains_def by blast
  from plist_find_value_Some[OF c(3)] have el: "el < length (elements (chain_heap ! c))" by simp
  have "length (elements (chain_heap ! c)) \<in> set (map (\<lambda>c. length (elements c)) chain_heap)"
    using c(2) by (auto simp: in_set_conv_nth intro!: exI[of _ c])
  then have "length (elements (chain_heap ! c)) \<le> sum_list (map (\<lambda>c. length (elements c)) chain_heap)"
    by (simp add: member_le_sum_list)
  with el c show "\<exists>c el. chain_ptr (ph v) = Some c \<and> c < length chain_heap \<and>
          plist_find_value (elements (chain_heap ! c)) v = Some el \<and>
          el < sum_list (map (\<lambda>c. length (elements c)) chain_heap) \<and>
          (\<forall>i < el. chain_ptr (ph (elements (chain_heap ! c) ! i)) = Some c)" by auto
qed

lemma build_assignment_rev_Suc:
  "build_assignment_rev assignment (Suc n) =
     (if assignment n \<ge> 0
      then (build_assignment_rev assignment n)(nat (assignment n) := int n)
      else build_assignment_rev assignment n)"
  by (simp add: build_assignment_rev_def)

lemma build_assignment_rev_target:
  "s < n \<Longrightarrow> assignment s \<ge> 0 \<Longrightarrow> build_assignment_rev assignment n (nat (assignment s)) \<ge> 0"
proof (induction n)
  case 0 then show ?case by simp
next
  case (Suc n)
  show ?case
  proof (cases "s = n")
    case True
    with Suc.prems show ?thesis by (simp add: build_assignment_rev_Suc)
  next
    case False
    with Suc.prems have "s < n" by simp
    from Suc.IH[OF this Suc.prems(2)] show ?thesis by (simp add: build_assignment_rev_Suc)
  qed
qed

lemma follow_chain_frame:
  assumes "follow_chain assignment idx_map c source ph chain_heap = Some r"
  shows "c < length chain_heap \<longrightarrow> source < n \<longrightarrow> length idx_map \<le> n \<longrightarrow>
     (\<forall>ph' chain_heap'. r = Inr (ph', chain_heap') \<longrightarrow>
        chain_frame n assignment idx_map c ph chain_heap ph' chain_heap')"
proof (rule follow_chain.raw_induct[OF _ assms])
  fix f :: "(nat \<Rightarrow> int) \<Rightarrow> int list \<Rightarrow> nat \<Rightarrow> nat \<Rightarrow> phase \<Rightarrow> chain_t list
      \<Rightarrow> (error + phase \<times> chain_t list) option"
    and assignment idx_map c source ph chain_heap r
  assume IH: "\<And>assignment idx_map c source ph chain_heap r.
      f assignment idx_map c source ph chain_heap = Some r \<Longrightarrow>
      c < length chain_heap \<longrightarrow> source < n \<longrightarrow> length idx_map \<le> n \<longrightarrow>
      (\<forall>ph' chain_heap'. r = Inr (ph', chain_heap') \<longrightarrow>
        chain_frame n assignment idx_map c ph chain_heap ph' chain_heap')"
  assume body: "(if assignment source \<ge> 0 then
        (if nat (assignment source) \<ge> length idx_map then Some (Inl OutOfBounds)
         else
           f assignment idx_map c (nat (assignment source))
             (ph(nat (idx_map ! nat (assignment source)) :=
                  (ph (nat (idx_map ! nat (assignment source))))\<lparr>chain_ptr := Some c\<rparr>))
             (chain_heap[c := (chain_heap ! c)\<lparr>elements :=
                  plist_insert_back (elements (chain_heap ! c))
                    (nat (idx_map ! nat (assignment source)))\<rparr>]))
      else Some (Inr (ph, chain_heap))) = Some r"
  show "c < length chain_heap \<longrightarrow> source < n \<longrightarrow> length idx_map \<le> n \<longrightarrow>
     (\<forall>ph' chain_heap'. r = Inr (ph', chain_heap') \<longrightarrow>
        chain_frame n assignment idx_map c ph chain_heap ph' chain_heap')"
  proof (intro impI allI)
    fix ph' chain_heap'
    assume c: "c < length chain_heap" and s: "source < n" and l: "length idx_map \<le> n"
      and r: "r = Inr (ph', chain_heap')"
    show "chain_frame n assignment idx_map c ph chain_heap ph' chain_heap'"
    proof (cases "assignment source \<ge> 0")
      case False
      with body r have "ph' = ph" "chain_heap' = chain_heap" by auto
      then show ?thesis by (simp add: chain_frame_def)
    next
      case True
      define t where "t = nat (assignment source)"
      define x where "x = nat (idx_map ! t)"
      define ph1 where "ph1 = ph(x := (ph x)\<lparr>chain_ptr := Some c\<rparr>)"
      define h1 where "h1 = chain_heap[c := (chain_heap ! c)\<lparr>elements :=
                  plist_insert_back (elements (chain_heap ! c)) x\<rparr>]"
      from body True r have t: "t < length idx_map"
        by (auto simp: t_def split: if_splits)
      with body True r have "f assignment idx_map c t ph1 h1 = Some r"
        by (simp add: t_def x_def ph1_def h1_def)
      from IH[OF this] c t l r
      have fr: "chain_frame n assignment idx_map c ph1 h1 ph' chain_heap'"
        by (simp add: h1_def)
      have 1: "length chain_heap' = length chain_heap" using fr by (simp add: chain_frame_def h1_def)
      have 2: "\<forall>c'. c' \<noteq> c \<longrightarrow> chain_heap' ! c' = chain_heap ! c'"
        using fr by (simp add: chain_frame_def h1_def)
      have 3: "\<exists>ys. elements (chain_heap' ! c) = elements (chain_heap ! c) @ ys"
        using fr c by (auto simp: chain_frame_def h1_def plist_insert_back_def)
      have 4: "\<forall>v. chain_ptr (ph' v) \<noteq> chain_ptr (ph v) \<longrightarrow>
           (\<exists>s < n. assignment s \<ge> 0 \<and> nat (assignment s) < length idx_map \<and>
                v = nat (idx_map ! nat (assignment s)))"
      proof (intro allI impI)
        fix v assume d: "chain_ptr (ph' v) \<noteq> chain_ptr (ph v)"
        show "\<exists>s < n. assignment s \<ge> 0 \<and> nat (assignment s) < length idx_map \<and>
                v = nat (idx_map ! nat (assignment s))"
        proof (cases "chain_ptr (ph' v) \<noteq> chain_ptr (ph1 v)")
          case True
          with fr show ?thesis by (simp add: chain_frame_def)
        next
          case False
          with d have "chain_ptr (ph1 v) \<noteq> chain_ptr (ph v)" by simp
          then have "v = x" by (auto simp: ph1_def split: if_splits)
          with s True t show ?thesis unfolding x_def t_def by blast
        qed
      qed
      from 1 2 3 4 show ?thesis unfolding chain_frame_def by blast
    qed
  qed
qed

lemma build_chains_heads:
  assumes d: "distinct (map nat idx_map)" and l: "length idx_map \<le> n"
  shows "\<forall>j \<in> set js. j < length idx_map \<Longrightarrow>
     chain_heads (build_assignment_rev assignment n) idx_map ph chain_heap values \<Longrightarrow>
     build_chains assignment (build_assignment_rev assignment n) idx_map js ph chain_heap
       values cur_chain = Some (Inr (ph2, chain_heap2, values2)) \<Longrightarrow>
     chain_heads (build_assignment_rev assignment n) idx_map ph2 chain_heap2 values2"
proof (induction js arbitrary: ph chain_heap "values" cur_chain)
  case Nil
  then show ?case by simp
next
  case (Cons j js)
  let ?rev = "build_assignment_rev assignment n"
  from Cons.prems(1) have jl: "j < length idx_map" and jsl: "\<forall>j \<in> set js. j < length idx_map"
    by simp_all
  show ?case
  proof (cases "?rev j = - 1")
    case False
    with Cons.prems(3) have "build_chains assignment ?rev idx_map js ph chain_heap
       values cur_chain = Some (Inr (ph2, chain_heap2, values2))" by simp
    from Cons.IH[OF jsl Cons.prems(2) this] show ?thesis .
  next
    case True
    define h where "h = nat (idx_map ! j)"
    define c where "c = length chain_heap"
    define ph0 where "ph0 = ph(h := (ph h)\<lparr>chain_ptr := Some c\<rparr>)"
    define h0 where "h0 = chain_heap @ [\<lparr> elements = [h], chain_nr = cur_chain \<rparr>]"
    from Cons.prems(3) True obtain ph1 h1 where
      fc: "follow_chain assignment idx_map c j ph0 h0 = Some (Inr (ph1, h1))"
      and rest: "build_chains assignment ?rev idx_map js ph1 h1 (nodeset_insert values h)
          (cur_chain + 1) = Some (Inr (ph2, chain_heap2, values2))"
      by (auto simp: h_def c_def ph0_def h0_def split: option.splits sum.splits)
    have cl: "c < length h0" by (simp add: c_def h0_def)
    from jl l have jn: "j < n" by simp
    from follow_chain_frame[OF fc, of n] cl jn l
    have fr: "chain_frame n assignment idx_map c ph0 h0 ph1 h1" by simp
    have heads0: "chain_heads ?rev idx_map ph0 h0 (nodeset_insert values h)"
      unfolding chain_heads_def
    proof
      fix v assume v: "v \<in> set (nodeset_insert values h)"
      show "(\<exists>j < length idx_map. v = nat (idx_map ! j) \<and> ?rev j = - 1) \<and>
        (\<exists>c. chain_ptr (ph0 v) = Some c \<and> c < length h0 \<and>
             (\<exists>ys. elements (h0 ! c) = v # ys))"
      proof (cases "v = h")
        case True
        have "chain_ptr (ph0 h) = Some c \<and> c < length h0 \<and> elements (h0 ! c) = h # []"
          by (simp add: ph0_def c_def h0_def)
        with True \<open>?rev j = - 1\<close> jl show ?thesis unfolding h_def by blast
      next
        case False
        with v have "v \<in> set values" by (auto simp: nodeset_insert_def split: if_splits)
        with Cons.prems(2) obtain c' ys where
          a: "\<exists>j < length idx_map. v = nat (idx_map ! j) \<and> ?rev j = - 1"
          and b: "chain_ptr (ph v) = Some c'" "c' < length chain_heap"
             "elements (chain_heap ! c') = v # ys"
          unfolding chain_heads_def by blast
        from b False have "chain_ptr (ph0 v) = Some c' \<and> c' < length h0 \<and>
            elements (h0 ! c') = v # ys"
          by (simp add: ph0_def h0_def nth_append)
        with a show ?thesis by blast
      qed
    qed
    have heads1: "chain_heads ?rev idx_map ph1 h1 (nodeset_insert values h)"
      unfolding chain_heads_def
    proof
      fix v assume v: "v \<in> set (nodeset_insert values h)"
      with heads0 obtain j0 c' ys where
        a: "j0 < length idx_map" "v = nat (idx_map ! j0)" "?rev j0 = - 1"
        and b: "chain_ptr (ph0 v) = Some c'" "c' < length h0" "elements (h0 ! c') = v # ys"
        unfolding chain_heads_def by blast
      have same: "chain_ptr (ph1 v) = chain_ptr (ph0 v)"
      proof (rule ccontr)
        assume "chain_ptr (ph1 v) \<noteq> chain_ptr (ph0 v)"
        with fr obtain s where s: "s < n" "assignment s \<ge> 0"
          "nat (assignment s) < length idx_map" "v = nat (idx_map ! nat (assignment s))"
          unfolding chain_frame_def by blast
        from a(2) s(4) have e: "map nat idx_map ! j0 = map nat idx_map ! nat (assignment s)"
          using a(1) s(3) by simp
        have "(map nat idx_map ! j0 = map nat idx_map ! nat (assignment s))
            = (j0 = nat (assignment s))"
          by (rule nth_eq_iff_index_eq[OF d]) (simp_all add: a(1) s(3))
        with e have "j0 = nat (assignment s)" by simp
        moreover have "build_assignment_rev assignment n (nat (assignment s)) \<ge> 0"
          using s(1) s(2) by (rule build_assignment_rev_target)
        ultimately show False using a(3) by simp
      qed
      have "\<exists>zs. elements (h1 ! c') = v # zs"
      proof (cases "c' = c")
        case True
        from fr obtain zs where "elements (h1 ! c) = elements (h0 ! c) @ zs"
          unfolding chain_frame_def by blast
        with b(3) True show ?thesis by simp
      next
        case False
        with fr have "h1 ! c' = h0 ! c'" unfolding chain_frame_def by blast
        with b(3) show ?thesis by simp
      qed
      moreover from fr have "length h1 = length h0" unfolding chain_frame_def by blast
      ultimately show "(\<exists>j < length idx_map. v = nat (idx_map ! j) \<and> ?rev j = - 1) \<and>
        (\<exists>c. chain_ptr (ph1 v) = Some c \<and> c < length h1 \<and>
             (\<exists>ys. elements (h1 ! c) = v # ys))"
        using a b same by auto
    qed
    from Cons.IH[OF jsl heads1 rest] show ?thesis .
  qed
qed

lemma chain_heads_values_in_chains:
  assumes "chain_heads assignment_rev idx_map ph chain_heap values"
  shows "values_in_chains ph chain_heap values"
  unfolding values_in_chains_def
proof
  fix v assume "v \<in> set values"
  with assms obtain c ys where "chain_ptr (ph v) = Some c" "c < length chain_heap"
    "elements (chain_heap ! c) = v # ys" unfolding chain_heads_def by blast
  then have "chain_ptr (ph v) = Some c \<and> c < length chain_heap \<and>
          plist_find_value (elements (chain_heap ! c)) v = Some 0 \<and>
          (\<forall>i < (0::nat). chain_ptr (ph (elements (chain_heap ! c) ! i)) = Some c)" by simp
  then show "\<exists>c el. chain_ptr (ph v) = Some c \<and> c < length chain_heap \<and>
          plist_find_value (elements (chain_heap ! c)) v = Some el \<and>
          (\<forall>i < el. chain_ptr (ph (elements (chain_heap ! c) ! i)) = Some c)" by blast
qed

lemma distinct_map_nat_sort:
  "distinct ns \<Longrightarrow> distinct (map nat (sort (map int ns)))"
proof -
  assume "distinct ns"
  then have "distinct (sort (map int ns))" by (simp add: distinct_map)
  moreover have "inj_on nat (set (sort (map int ns)))" by (auto simp: inj_on_def)
  ultimately show ?thesis by (simp add: distinct_map)
qed

lemma build_chains_values_in_chains:
  assumes "distinct ns"
    and "build_chains assignment (build_assignment_rev assignment (length ns))
           (sort (map int ns)) [0..<length ns] ph chain_heap [] 0
         = Some (Inr (ph2, chain_heap2, values))"
  shows "values_in_chains ph2 chain_heap2 values"
proof -
  have h: "chain_heads (build_assignment_rev assignment (length ns)) (sort (map int ns)) ph
      chain_heap []" by (simp add: chain_heads_def)
  have j: "\<forall>j \<in> set [0..<length ns]. j < length (sort (map int ns))" by simp
  have l: "length (sort (map int ns)) \<le> length ns" by simp
  from build_chains_heads[OF distinct_map_nat_sort[OF assms(1)] l j h assms(2)]
  show ?thesis by (rule chain_heads_values_in_chains)
qed

lemma compute_maximal_antichain_chains:
  "compute_maximal_antichain hungarian_solve ph chain_heap d =
     (case chains_of_dvg hungarian_solve ph chain_heap d of
        None \<Rightarrow> None
      | Some (Inl e) \<Rightarrow> Some (Inl e)
      | Some (Inr None) \<Rightarrow> Some (Inr (ph, chain_heap, None))
      | Some (Inr (Some (ph2, chain_heap2, values))) \<Rightarrow>
          (case antichain_loop ph2 chain_heap2 values of
             None \<Rightarrow> None
           | Some (Inl e) \<Rightarrow> Some (Inl e)
           | Some (Inr values1) \<Rightarrow> Some (Inr (ph2, chain_heap2, Some values1))))"
  by (simp add: compute_maximal_antichain_def chains_of_dvg_def Let_def
      split: sum.splits option.splits prod.splits)

lemma chains_of_dvg_values_in_chains:
  assumes "distinct (nodes d)"
    and "chains_of_dvg hungarian_solve ph chain_heap d = Some (Inr (Some (ph2, chain_heap2, values)))"
  shows "values_in_chains ph2 chain_heap2 values"
proof -
  from assms(2) obtain assignment ph1 where
    "build_chains assignment (build_assignment_rev assignment (length (nodes d)))
       (sort (map int (nodes d))) [0..<length (nodes d)] ph1 chain_heap [] 0
     = Some (Inr (ph2, chain_heap2, values))"
    by (auto simp: chains_of_dvg_def Let_def nodeset_count_def
        split: if_splits sum.splits option.splits prod.splits)
  from build_chains_values_in_chains[OF assms(1) this] show ?thesis .
qed

lemma dvg_follow_distinct:
  assumes "dvg_follow ph u_irn cur_killer old_killer d = Some r"
  shows "distinct (nodes d) \<longrightarrow> (\<forall>d'. r = Inr d' \<longrightarrow> distinct (nodes d'))"
proof (rule dvg_follow.raw_induct[OF _ assms])
  fix f :: "phase \<Rightarrow> node \<Rightarrow> node option \<Rightarrow> node option \<Rightarrow> dvg \<Rightarrow> (error + dvg) option"
    and ph u_irn cur_killer old_killer d r
  assume IH: "\<And>ph u_irn cur_killer old_killer d r.
      f ph u_irn cur_killer old_killer d = Some r \<Longrightarrow>
      distinct (nodes d) \<longrightarrow> (\<forall>d'. r = Inr d' \<longrightarrow> distinct (nodes d'))"
  assume body: "(if cur_killer \<noteq> old_killer then
        (case cur_killer of
           None \<Rightarrow> Some (Inl NullDeref)
         | Some ck \<Rightarrow>
             if pset_find (edges d) (ck, u_irn) then Some (Inl AssertFail)
             else f ph u_irn (killer (ph ck)) cur_killer
                    \<lparr> nodes = nodeset_insert (nodes d) ck,
                      edges = pset_insert (edges d) (u_irn, ck) \<rparr>)
      else Some (Inr d)) = Some r"
  show "distinct (nodes d) \<longrightarrow> (\<forall>d'. r = Inr d' \<longrightarrow> distinct (nodes d'))"
  proof (intro impI allI)
    fix d' assume dd: "distinct (nodes d)" and r: "r = Inr d'"
    show "distinct (nodes d')"
    proof (cases "cur_killer \<noteq> old_killer")
      case False
      with body r dd show ?thesis by simp
    next
      case True
      with body r obtain ck where ck: "cur_killer = Some ck"
        and s: "f ph u_irn (killer (ph ck)) cur_killer
                    \<lparr> nodes = nodeset_insert (nodes d) ck,
                      edges = pset_insert (edges d) (u_irn, ck) \<rparr> = Some r"
        by (auto split: option.splits if_splits)
      have "distinct (nodes \<lparr> nodes = nodeset_insert (nodes d) ck,
                      edges = pset_insert (edges d) (u_irn, ck) \<rparr>)"
        using dd by (simp add: nodeset_insert_def)
      with IH[OF s] r show ?thesis by blast
    qed
  qed
qed

lemma compute_dvg_distinct:
  "compute_dvg ph rss_nodes d = Some (Inr d') \<Longrightarrow> distinct (nodes d) \<Longrightarrow> distinct (nodes d')"
proof (induction rss_nodes arbitrary: d)
  case Nil
  then show ?case by simp
next
  case (Cons u us)
  from Cons.prems(1) obtain d1 where
    f: "dvg_follow ph u (killer (ph u)) None (d\<lparr>nodes := nodeset_insert (nodes d) u\<rparr>)
          = Some (Inr d1)"
    and r: "compute_dvg ph us d1 = Some (Inr d')"
    by (auto split: option.splits sum.splits)
  have "distinct (nodes (d\<lparr>nodes := nodeset_insert (nodes d) u\<rparr>))"
    using Cons.prems(2) by (simp add: nodeset_insert_def)
  with dvg_follow_distinct[OF f] have "distinct (nodes d1)" by blast
  from Cons.IH[OF r this] show ?case .
qed

lemma compute_maximal_antichain_returns:
  assumes "distinct (nodes d)"
    and "chains_of_dvg hungarian_solve ph chain_heap d = Some (Inr x)"
  shows "\<exists>r. compute_maximal_antichain hungarian_solve ph chain_heap d = Some (Inr r)"
proof (cases x)
  case None
  with assms(2) show ?thesis by (simp add: compute_maximal_antichain_chains)
next
  case (Some s)
  obtain ph2 chain_heap2 vs where s: "s = (ph2, chain_heap2, vs)" by (cases s)
  from chains_of_dvg_values_in_chains[OF assms(1)] assms(2) Some s
  have "values_in_chains ph2 chain_heap2 vs" by simp
  from antichain_loop_returns[OF values_in_chains_below[OF this]]
  obtain r where "antichain_loop ph2 chain_heap2 vs = Some (Inr r)" by blast
  with assms(2) Some s show ?thesis by (simp add: compute_maximal_antichain_chains)
qed

lemma two_loads_chains:
  "map_option (map_sum id (\<lambda>(ph1, d).
       (d, map_option (map_sum id (map_option (\<lambda>(ph2, chain_heap, values).
              (chain_heap, values))))
            (chains_of_dvg two_loads_matching ph1 [] d))))
     (block_dvg exact_ops sort_by_cost 7 [7, 1, 2, 3] two_loads)
   = Some (Inr (\<lparr> nodes = [7, 1, 3, 2],
                   edges = [(7, 7), (1, 3), (1, 7), (2, 3), (2, 7), (3, 7)] \<rparr>,
        Some (Inr (Some ([\<lparr> elements = [1, 3, 7], chain_nr = 0 \<rparr>,
                          \<lparr> elements = [2], chain_nr = 1 \<rparr>], [1, 2])))))"
  by code_simp

text \<open>
  Claim C10. The \<^verbatim>\<open>do ... while\<close> loop of \<^verbatim>\<open>compute_maximal_antichain\<close> returns, without a
  failing \<^verbatim>\<open>assert\<close>, for every set of values lying in chains: a round moves values to
  \<open>temp\<close> and puts their chain predecessors, which stand strictly earlier, in their place.
  The chains that the function builds before the loop are such
  (\<open>chains_of_dvg_values_in_chains\<close>), whatever the assignment.
\<close>

theorem antichain_loop_terminates:
  assumes "values_in_chains ph chain_heap values"
  shows "\<exists>r. antichain_loop ph chain_heap values = Some (Inr r)"
  using antichain_loop_returns[OF values_in_chains_below[OF assms]] .

theorem antichain_loop_terminates_witness:
  "\<exists>ph1 d ph2 chain_heap values.
     block_dvg exact_ops sort_by_cost 7 [7, 1, 2, 3] two_loads = Some (Inr (ph1, d)) \<and>
     chains_of_dvg two_loads_matching ph1 [] d = Some (Inr (Some (ph2, chain_heap, values))) \<and>
     values = [1, 2] \<and>
     values_in_chains ph2 chain_heap values \<and>
     (\<exists>r. antichain_loop ph2 chain_heap values = Some (Inr r))"
proof -
  from two_loads_chains obtain ph1 d ph2 chain_heap "values" where
    b: "block_dvg exact_ops sort_by_cost 7 [7, 1, 2, 3] two_loads = Some (Inr (ph1, d))"
    and d: "d = \<lparr> nodes = [7, 1, 3, 2],
                   edges = [(7, 7), (1, 3), (1, 7), (2, 3), (2, 7), (3, 7)] \<rparr>"
    and c: "chains_of_dvg two_loads_matching ph1 [] d
              = Some (Inr (Some (ph2, chain_heap, values)))"
    and v: "values = [1, 2]"
    by (auto simp: map_sum_def map_option_case split: option.splits sum.splits prod.splits)
  from d have "distinct (nodes d)" by simp
  from chains_of_dvg_values_in_chains[OF this c]
  have vc: "values_in_chains ph2 chain_heap values" .
  from antichain_loop_terminates[OF vc] b c v vc show ?thesis by blast
qed

subsection \<open>The disjoint value DAG\<close>

lemma dvg_follow_mono:
  assumes "dvg_follow ph u cur old d = Some r"
  shows "\<forall>d'. r = Inr d' \<longrightarrow> set (edges d) \<subseteq> set (edges d')"
proof (rule dvg_follow.raw_induct[OF _ assms])
  fix follow ph u cur old d r
  assume IH: "\<And>ph u cur old d r. follow ph u cur old d = Some r \<Longrightarrow>
      \<forall>d'. r = Inr d' \<longrightarrow> set (edges d) \<subseteq> set (edges d')"
    and body: "(if cur \<noteq> old then
        (case cur of
           None \<Rightarrow> Some (Inl NullDeref)
         | Some ck \<Rightarrow>
             if pset_find (edges d) (ck, u) then Some (Inl AssertFail)
             else follow ph u (killer (ph ck)) cur
                    \<lparr> nodes = nodeset_insert (nodes d) ck,
                      edges = pset_insert (edges d) (u, ck) \<rparr>)
      else Some (Inr d)) = Some r"
  show "\<forall>d'. r = Inr d' \<longrightarrow> set (edges d) \<subseteq> set (edges d')"
  proof (intro allI impI)
    fix d' assume r: "r = Inr d'"
    show "set (edges d) \<subseteq> set (edges d')"
    proof (cases "cur \<noteq> old")
      case False
      with body r show ?thesis by simp
    next
      case True
      with body r obtain ck where ck: "cur = Some ck" by (cases cur) auto
      from True body r ck have ne: "\<not> pset_find (edges d) (ck, u)" by (auto split: if_splits)
      with True body ck have "follow ph u (killer (ph ck)) cur
          \<lparr> nodes = nodeset_insert (nodes d) ck, edges = pset_insert (edges d) (u, ck) \<rparr> = Some r"
        by simp
      from IH[OF this] r have "set (pset_insert (edges d) (u, ck)) \<subseteq> set (edges d')" by simp
      then show ?thesis by (auto simp: pset_insert_def split: if_splits)
    qed
  qed
qed

lemma dvg_follow_first:
  assumes "dvg_follow ph u (Some ck) None d = Some (Inr d')"
  shows "(u, ck) \<in> set (edges d')"
proof -
  from assms have ne: "\<not> pset_find (edges d) (ck, u)"
    by (subst (asm) dvg_follow.simps) (auto split: if_splits)
  with assms have "dvg_follow ph u (killer (ph ck)) (Some ck)
          \<lparr> nodes = nodeset_insert (nodes d) ck, edges = pset_insert (edges d) (u, ck) \<rparr> = Some (Inr d')"
    by (subst (asm) dvg_follow.simps) simp
  from dvg_follow_mono[OF this] show ?thesis by (auto simp: pset_insert_def split: if_splits)
qed

lemma compute_dvg_mono:
  "compute_dvg ph us d = Some (Inr d') \<Longrightarrow> set (edges d) \<subseteq> set (edges d')"
proof (induction us arbitrary: d)
  case Nil then show ?case by simp
next
  case (Cons u us)
  from Cons.prems obtain d1 where
    f: "dvg_follow ph u (killer (ph u)) None (d\<lparr>nodes := nodeset_insert (nodes d) u\<rparr>) = Some (Inr d1)"
    and r: "compute_dvg ph us d1 = Some (Inr d')"
    by (auto split: option.splits sum.splits)
  from dvg_follow_mono[OF f] Cons.IH[OF r] show ?case by auto
qed

lemma compute_dvg_self_edge:
  "compute_dvg ph us d = Some (Inr d') \<Longrightarrow> sink \<in> set us \<Longrightarrow> killer (ph sink) = Some sink
    \<Longrightarrow> (sink, sink) \<in> set (edges d')"
proof (induction us arbitrary: d)
  case Nil then show ?case by simp
next
  case (Cons u us)
  from Cons.prems(1) obtain d1 where
    f: "dvg_follow ph u (killer (ph u)) None (d\<lparr>nodes := nodeset_insert (nodes d) u\<rparr>) = Some (Inr d1)"
    and r: "compute_dvg ph us d1 = Some (Inr d')"
    by (auto split: option.splits sum.splits)
  show ?case
  proof (cases "u = sink")
    case True
    with f Cons.prems(3) have "(sink, sink) \<in> set (edges d1)" by (auto dest: dvg_follow_first)
    with compute_dvg_mono[OF r] show ?thesis by auto
  next
    case False
    with Cons.prems(2) have "sink \<in> set us" by simp
    from Cons.IH[OF r this Cons.prems(3)] show ?thesis .
  qed
qed

text \<open>
  Claim C6, at a failing input. For the block \<open>straight_line\<close> (value \<open>1\<close>, used by \<open>2\<close>,
  which is used outside the block; sink \<open>7\<close>) \<^verbatim>\<open>compute_dvg\<close> returns a DVG with the
  self-edge from the sink to the sink: the sink is the first node of \<^verbatim>\<open>rss->nodes\<close> and is
  its own killer, and the \<^verbatim>\<open>assert\<close> looks for the reverse edge before the edge is
  inserted. By \<open>compute_dvg_self_edge\<close> this holds in every run.
\<close>

theorem dvg_of_straight_line_has_self_edge:
  "map_option (map_sum id (\<lambda>r. edges (snd r)))
     (block_dvg exact_ops sort_by_cost 7 [7, 1, 2] straight_line) =
   Some (Inr [(7, 7), (1, 2), (1, 7), (2, 7)])"
  by code_simp


subsection \<open>The antichain returned\<close>




text \<open>
  Claim C1, at a failing input: the second scenario of the specification, two independent
  loads \<open>1\<close> and \<open>2\<close> and their sum \<open>3\<close>. In the DVG neither of \<open>1\<close> and \<open>2\<close> is a
  descendant of the other, so \<open>{1, 2}\<close> is an antichain of two nodes; the set returned by
  \<^verbatim>\<open>compute_maximal_antichain\<close> is empty. Both chain heads are moved to \<open>temp\<close> although
  neither has a descendant among the candidates, and a head has no predecessor. By
  \<open>compute_maximal_antichain_at_most_one\<close> the set returned never has two nodes.
\<close>

theorem antichain_of_two_loads_is_empty:
  "block_antichain two_loads_matching exact_ops sort_by_cost 7 [7, 1, 2, 3] two_loads =
     Some (Inr (\<lparr> nodes = [7, 1, 3, 2],
                  edges = [(7, 7), (1, 3), (1, 7), (2, 3), (2, 7), (3, 7)] \<rparr>, Some [])) \<and>
   (1, 2) \<notin> (set [(7, 7), (1, 3), (1, 7), (2, 3), (2, 7), (3, 7 :: nat)])\<^sup>+ \<and>
   (2, 1) \<notin> (set [(7, 7), (1, 3), (1, 7), (2, 3), (2, 7), (3, 7 :: nat)])\<^sup>+"
proof -
  have "block_antichain two_loads_matching exact_ops sort_by_cost 7 [7, 1, 2, 3] two_loads =
     Some (Inr (\<lparr> nodes = [7, 1, 3, 2],
                  edges = [(7, 7), (1, 3), (1, 7), (2, 3), (2, 7), (3, 7)] \<rparr>, Some []))"
    by code_simp
  moreover have "(1, 2) \<notin> (set [(7, 7), (1, 3), (1, 7), (2, 3), (2, 7), (3, 7 :: nat)])\<^sup>+"
    by (auto elim: tranclE)
  moreover have "(2, 1) \<notin> (set [(7, 7), (1, 3), (1, 7), (2, 3), (2, 7), (3, 7 :: nat)])\<^sup>+"
    by (auto elim: tranclE)
  ultimately show ?thesis by blast
qed

subsection \<open>Connected bipartite components\<close>

lemma mark_parents_children:
  "mark_parents ss ph ch = (ph1, ch1) \<Longrightarrow> set ch1 = set ch - set ss"
proof (induction ss arbitrary: ph ch)
  case Nil then show ?case by simp
next
  case (Cons s ss)
  from Cons.prems have "mark_parents ss (ph(s := (ph s)\<lparr>visited := True\<rparr>))
      (if nodeset_find ch s then nodeset_remove ch s else ch) = (ph1, ch1)" by simp
  from Cons.IH[OF this] show ?case
    by (auto simp: nodeset_find_def nodeset_remove_def split: if_splits)
qed

lemma decompose_bipartite:
  "decompose sink ph us epk cs k = Some (ph', cbcs) \<Longrightarrow> \<forall>c \<in> set cs. cbc_bipartite c
    \<Longrightarrow> \<forall>c \<in> set cbcs. cbc_bipartite c"
proof (induction us arbitrary: ph epk cs k)
  case Nil then show ?case by simp
next
  case (Cons u us)
  show ?case
  proof (cases "visited (ph u) \<or> u = sink")
    case True
    with Cons.prems(1) have "decompose sink ph us epk cs k = Some (ph', cbcs)" by simp
    from Cons.IH[OF this Cons.prems(2)] show ?thesis .
  next
    case False
    from False Cons.prems(1) obtain ps children where
      cl: "cbc_closure ph (nodeset_insert [] u) (foldl nodeset_insert [] (pkiller_list (ph u)))
            = Some (ps, children)"
      by (auto split: option.splits)
    obtain ph1 children1 where mp: "mark_parents ps ph children = (ph1, children1)"
      by (cases "mark_parents ps ph children")
    let ?c = "\<lparr> cbc_parents = ps, cbc_children = children1,
                 kill_edges = foldl pset_insert [] (filter (cbc_edge ps children1) epk),
                 cbc_nr = k \<rparr>"
    from False Cons.prems(1) cl mp have
      r: "decompose sink ph1 us (filter (\<lambda>k_edge. \<not> cbc_edge ps children1 k_edge) epk)
            (cs @ [?c]) (k + 1) = Some (ph', cbcs)" by simp
    have "set (foldl pset_insert [] (filter (cbc_edge ps children1) epk))
        = set (filter (cbc_edge ps children1) epk)"
      by (simp add: set_foldl_pset_insert)
    with mark_parents_children[OF mp] have "cbc_bipartite ?c"
      by (auto simp: cbc_bipartite_def cbc_edge_def nodeset_find_def)
    with Cons.prems(2) have "\<forall>c \<in> set (cs @ [?c]). cbc_bipartite c" by simp
    from Cons.IH[OF r this] show ?thesis .
  qed
qed

lemma compute_bipartite_decomposition_bipartite:
  "compute_bipartite_decomposition sink ph ns = Some (ph', cbcs) \<Longrightarrow> \<forall>c \<in> set cbcs. cbc_bipartite c"
  unfolding compute_bipartite_decomposition_def by (erule decompose_bipartite) simp

lemma remove_covered_parents_keeps:
  "remove_covered_parents t es ph x = (ph1, x1) \<Longrightarrow> p \<in> set x \<Longrightarrow> \<forall>e \<in> set es. fst e \<noteq> p
    \<Longrightarrow> p \<in> set x1"
proof (induction es arbitrary: ph x)
  case Nil then show ?case by simp
next
  case (Cons e es)
  show ?case
  proof (cases "snd e = t \<and> nodeset_find x (fst e)")
    case True
    with Cons.prems(1) have r: "remove_covered_parents t es
        (ph(t := (ph t)\<lparr>parent_list := plist_insert_back (parent_list (ph t)) (fst e)\<rparr>))
        (nodeset_remove x (fst e)) = (ph1, x1)" by simp
    have "p \<in> set (nodeset_remove x (fst e))" using Cons.prems(2,3)
      by (auto simp: nodeset_remove_def)
    from Cons.IH[OF r this] Cons.prems(3) show ?thesis by simp
  next
    case False
    with Cons.prems(1) have r: "remove_covered_parents t es ph x = (ph1, x1)" by auto
    from Cons.IH[OF r Cons.prems(2)] Cons.prems(3) show ?thesis by simp
  qed
qed

lemma sks_loop_uncovered:
  assumes "sks_loop F c ph x y sks = Some r"
  shows "uncovered c x \<longrightarrow> (\<forall>res. r \<noteq> Inr res)"
proof (rule sks_loop_raw[OF assms])
  fix f :: "'a float_ops \<Rightarrow> cbc \<Rightarrow> phase \<Rightarrow> node list \<Rightarrow> node list \<Rightarrow> 'a child list
      \<Rightarrow> (error + phase \<times> 'a child list) option"
    and F :: "'a float_ops" and c ph x y sks r
  assume IH: "\<And>F c ph x y sks r. f F c ph x y sks = Some r \<Longrightarrow>
      uncovered c x \<longrightarrow> (\<forall>res. r \<noteq> Inr res)"
  assume body: "(if 0 < nodeset_count x
       then case irn (select_child_max_cost F ph x y c) of
            None \<Rightarrow> Some (Inl NullDeref)
          | Some t_irn \<Rightarrow>
             (case remove_covered_parents t_irn (kill_edges c) ph x of
               (ph1, x1) \<Rightarrow>
                 f F c ph1 x1 (update_cumulated_descendent_values ph1 y t_irn)
                   (sks @ [select_child_max_cost F ph x y c]))
       else Some (Inr (ph, sks))) = Some r"
  show "uncovered c x \<longrightarrow> (\<forall>res. r \<noteq> Inr res)"
  proof (intro impI allI)
    fix res assume u: "uncovered c x"
    then obtain p where p: "p \<in> set x" "\<forall>e \<in> set (kill_edges c). fst e \<noteq> p"
      by (auto simp: uncovered_def)
    then have pos: "0 < nodeset_count x" by (cases x) (auto simp: nodeset_count_def)
    show "r \<noteq> Inr res"
    proof (cases "irn (select_child_max_cost F ph x y c)")
      case None
      with body pos show ?thesis by auto
    next
      case (Some t)
      obtain ph1 x1 where rc: "remove_covered_parents t (kill_edges c) ph x = (ph1, x1)"
        by (cases "remove_covered_parents t (kill_edges c) ph x")
      from body pos Some rc have rec: "f F c ph1 x1 (update_cumulated_descendent_values ph1 y t)
          (sks @ [select_child_max_cost F ph x y c]) = Some r" by simp
      from remove_covered_parents_keeps[OF rc p] have "p \<in> set x1" .
      with p(2) have "uncovered c x1" by (auto simp: uncovered_def)
      with IH[OF rec] show ?thesis by (cases res) auto
    qed
  qed
qed

lemma set_foldl_nodeset_insert: "set (foldl nodeset_insert s xs) = set s \<union> set xs"
  by (induction xs arbitrary: s) (auto simp: nodeset_insert_def)

lemma killing_cbcs_covered:
  "killing_cbcs F qsort sink cs ph = Some (Inr ph') \<Longrightarrow>
   \<forall>c \<in> set cs. \<not> uncovered c (cbc_parents c)"
proof (induction cs arbitrary: ph)
  case Nil then show ?case by simp
next
  case (Cons c cs)
  from Cons.prems obtain ph1 sks where
    l: "sks_loop F c ph (foldl nodeset_insert [] (cbc_parents c)) [] [] = Some (Inr (ph1, sks))"
    by (auto split: option.splits sum.splits)
  from Cons.prems l obtain ph2 where
    b: "build_killing_function sink (rev (qsort sks)) ph1 = Inr ph2"
    by (auto split: sum.splits)
  from Cons.prems l b have r: "killing_cbcs F qsort sink cs ph2 = Some (Inr ph')" by simp
  from sks_loop_uncovered[OF l] have "\<not> uncovered c (foldl nodeset_insert [] (cbc_parents c))"
    by auto
  then have "\<not> uncovered c (cbc_parents c)"
    by (simp add: uncovered_def set_foldl_nodeset_insert)
  with Cons.IH[OF r] show ?case by simp
qed

lemma crossed_uses_cbcs:
  "block_cbcs 7 [7, 1, 2, 3, 4, 5, 6] crossed_uses =
     Some (Inr [\<lparr> cbc_parents = [1, 2, 3, 4], cbc_children = [5, 6],
                  kill_edges = [(2, 5), (3, 5), (3, 6), (4, 6)], cbc_nr = 0 \<rparr>,
                \<lparr> cbc_parents = [5, 6], cbc_children = [7],
                  kill_edges = [(5, 7), (6, 7)], cbc_nr = 1 \<rparr>])"
  by code_simp

lemma crossed_uses_never_returns:
  assumes "compute_pkill_set 7 [7, 1, 2, 3, 4, 5, 6] crossed_uses = Inr ph1"
  shows "compute_killing_function F qsort 7 [7, 1, 2, 3, 4, 5, 6] ph1 \<noteq> Some (Inr ph2)"
proof
  assume k: "compute_killing_function F qsort 7 [7, 1, 2, 3, 4, 5, 6] ph1 = Some (Inr ph2)"
  then obtain ph' cbcs where
    d: "compute_bipartite_decomposition 7 ph1 [7, 1, 2, 3, 4, 5, 6] = Some (ph', cbcs)"
    and r: "killing_cbcs F qsort 7 cbcs ph' = Some (Inr ph2)"
    by (auto simp: compute_killing_function_def split: option.splits)
  from assms d have "block_cbcs 7 [7, 1, 2, 3, 4, 5, 6] crossed_uses = Some (Inr cbcs)"
    by (simp add: block_cbcs_def)
  with crossed_uses_cbcs have c: "cbcs = [\<lparr> cbc_parents = [1, 2, 3, 4], cbc_children = [5, 6],
                  kill_edges = [(2, 5), (3, 5), (3, 6), (4, 6)], cbc_nr = 0 \<rparr>,
                \<lparr> cbc_parents = [5, 6], cbc_children = [7],
                  kill_edges = [(5, 7), (6, 7)], cbc_nr = 1 \<rparr>]" by simp
  from killing_cbcs_covered[OF r] show False
    unfolding c by (simp add: uncovered_def)
qed

text \<open>
  Claim C7, at a failing input. In the block \<open>crossed_uses\<close> the potential killers are
  \<open>pk(1) = {4}\<close>, \<open>pk(2) = {4, 5}\<close>, \<open>pk(3) = {5, 6}\<close>, \<open>pk(4) = {6}\<close>. The first
  component has the parents \<open>1, 2, 3, 4\<close>; node \<open>4\<close>, a parent, is removed from the children,
  and with it the only kill edge of parent \<open>1\<close>: parent \<open>1\<close> is the source of no kill edge
  of the component. The other two properties of the claim hold for every component
  (\<open>compute_bipartite_decomposition_bipartite\<close>), and with such a parent the greedy loop of
  \<^verbatim>\<open>compute_killing_function\<close> never returns (\<open>crossed_uses_never_returns\<close>).
\<close>

theorem cbc_of_crossed_uses_has_uncovered_parent:
  "block_cbcs 7 [7, 1, 2, 3, 4, 5, 6] crossed_uses =
     Some (Inr [\<lparr> cbc_parents = [1, 2, 3, 4], cbc_children = [5, 6],
                  kill_edges = [(2, 5), (3, 5), (3, 6), (4, 6)], cbc_nr = 0 \<rparr>,
                \<lparr> cbc_parents = [5, 6], cbc_children = [7],
                  kill_edges = [(5, 7), (6, 7)], cbc_nr = 1 \<rparr>]) \<and>
   1 \<in> set [1, 2, 3, 4 :: nat] \<and>
   1 \<notin> fst ` set ([(2, 5), (3, 5), (3, 6), (4, 6)] :: rss_edge list)"
  using crossed_uses_cbcs by simp

subsection \<open>The candidates of the serialization heuristic\<close>

lemma for_all_vv_not_pkiller:
  "for_all_vv sink reachable body False j v ks b =
     consider_all body (filter (\<lambda>vv. vv \<noteq> sink \<and> \<not> reachable v vv) (map snd ks)) b"
proof (induction ks arbitrary: b)
  case Nil then show ?case by simp
next
  case (Cons kv ks)
  obtain k vv where kv: "kv = (k, vv)" by (cases kv)
  show ?case using Cons.IH by (auto simp: kv split: sum.splits)
qed

lemma for_all_vv_skips_sink:
  "for_all_vv sink reachable body is_pkiller j v ks b =
     for_all_vv sink reachable body is_pkiller j v (filter (\<lambda>kv. snd kv \<noteq> sink) ks) b"
proof (induction ks arbitrary: b)
  case Nil then show ?case by simp
next
  case (Cons kv ks)
  obtain k vv where kv: "kv = (k, vv)" by (cases kv)
  show ?case using Cons.IH by (auto simp: kv split: sum.splits)
qed

lemma map_snd_rev_enumerate: "map snd (rev (enumerate n xs)) = rev xs"
  by (simp add: rev_map[symmetric])

text \<open>
  For a value \<open>v\<close> that is not among the potential killers of \<open>u\<close> in the DVG (a sorted
  array), the edge from \<open>vv\<close> to \<open>v\<close> is considered for exactly those potential killers
  \<open>vv\<close> of \<open>u\<close> that are not the sink and that are not reachable from \<open>v\<close> in the block,
  from the last to the first.
\<close>

lemma candidates_when_not_pkiller:
  assumes "sorted arr" and "v_irn \<notin> set arr"
  shows "consider_pkillers sink reachable body j v_irn (Some arr) b =
           consider_all (body False)
             (filter (\<lambda>vv. vv \<noteq> sink \<and> \<not> reachable v_irn vv) (rev arr)) b"
proof -
  from bsearch_mem[OF assms(1), of v_irn] assms(2)
  have "BSEARCH_IRN_ARR v_irn (Some arr) = Inr None" by (simp add: BSEARCH_IRN_ARR_def)
  then show ?thesis
    by (simp add: consider_pkillers_def for_all_vv_not_pkiller map_snd_rev_enumerate)
qed



subsection \<open>The serialization loop\<close>

lemma for_all_v_single:
  "for_all_v sink idx_map num_regs max_height height reachable ph bs_sv bs_uk 0 u [(0, v)] b = Inr b"
  by simp











text \<open>
  Claim C2, at a failing input. The block \<open>straight_line\<close> and a register class whose only
  non-ignore register is reserved by the ABI: the budget is \<open>0\<close>, the antichain is \<open>{1}\<close>,
  \<^verbatim>\<open>compute_best_admissible_serialization\<close> sees no edge with a positive \<open>omega1\<close> and
  returns \<^verbatim>\<open>NULL\<close>, and the caller reads \<^verbatim>\<open>ser->edge->tgt\<close>.
\<close>

theorem no_budget_dereferences_null:
  "map_option (map_sum id snd)
     (process_class straight_line_env exact_ops sort_by_cost 7 10 [1, 2] [True] [True]
        [7, 1, 2] straight_line [] [] 0) = Some (Inl NullDeref)"
  by code_simp





end
